theory Spec2Isabelle
  imports Complex_Main
begin

section \<open>Strings of the host language\<close>

text \<open>
  The program is a single TypeScript file, \<^verbatim>\<open>src/index.tsx\<close>. Its strings are
  sequences of code units; they are modelled as \<^typ>\<open>string\<close>, a \<^typ>\<open>char\<close> being a
  code unit below 256 (ASCII and Latin-1). On that range every string operation the
  program uses is written out exactly; text with code units above 255 is outside the
  model.
\<close>

definition newline :: char where
  "newline = CHR 0x0A"

text \<open>
  \<^verbatim>\<open>String.prototype.trim\<close> removes white space and line terminators from both
  ends: TAB, LF, VT, FF, CR, SPACE and NO-BREAK SPACE are the ones below 256.
\<close>

definition is_space :: "char \<Rightarrow> bool" where
  "is_space c \<longleftrightarrow>
     c \<in> set [CHR 0x09, CHR 0x0A, CHR 0x0B, CHR 0x0C, CHR 0x0D, CHR 0x20, CHR 0xA0]"

definition trim :: "string \<Rightarrow> string" where
  "trim s = rev (dropWhile is_space (rev (dropWhile is_space s)))"

text \<open>
  \<^verbatim>\<open>String.prototype.toLowerCase\<close>: below 256 the letters with a lower-case
  form are A to Z and the Latin-1 capitals 0xC0 to 0xDE without the multiplication sign
  0xD7; each maps to the code unit 32 above it.
\<close>

definition upper_chars :: "char list" where
  "upper_chars = ''ABCDEFGHIJKLMNOPQRSTUVWXYZ'' @
     [CHR 0xC0, CHR 0xC1, CHR 0xC2, CHR 0xC3, CHR 0xC4, CHR 0xC5, CHR 0xC6, CHR 0xC7,
      CHR 0xC8, CHR 0xC9, CHR 0xCA, CHR 0xCB, CHR 0xCC, CHR 0xCD, CHR 0xCE, CHR 0xCF,
      CHR 0xD0, CHR 0xD1, CHR 0xD2, CHR 0xD3, CHR 0xD4, CHR 0xD5, CHR 0xD6,
      CHR 0xD8, CHR 0xD9, CHR 0xDA, CHR 0xDB, CHR 0xDC, CHR 0xDD, CHR 0xDE]"

definition lower_chars :: "char list" where
  "lower_chars = ''abcdefghijklmnopqrstuvwxyz'' @
     [CHR 0xE0, CHR 0xE1, CHR 0xE2, CHR 0xE3, CHR 0xE4, CHR 0xE5, CHR 0xE6, CHR 0xE7,
      CHR 0xE8, CHR 0xE9, CHR 0xEA, CHR 0xEB, CHR 0xEC, CHR 0xED, CHR 0xEE, CHR 0xEF,
      CHR 0xF0, CHR 0xF1, CHR 0xF2, CHR 0xF3, CHR 0xF4, CHR 0xF5, CHR 0xF6,
      CHR 0xF8, CHR 0xF9, CHR 0xFA, CHR 0xFB, CHR 0xFC, CHR 0xFD, CHR 0xFE]"

definition lower_char :: "char \<Rightarrow> char" where
  "lower_char c = (case map_of (zip upper_chars lower_chars) c of Some d \<Rightarrow> d | None \<Rightarrow> c)"

definition toLowerCase :: "string \<Rightarrow> string" where
  "toLowerCase s = map lower_char s"

text \<open>\<^verbatim>\<open>s.substring(a, b)\<close>: both indices are clamped to the length and swapped when
  out of order.\<close>

definition substring :: "string \<Rightarrow> nat \<Rightarrow> nat \<Rightarrow> string" where
  "substring s a b =
     (let a' = min a (length s); b' = min b (length s);
          lo = min a' b'; hi = max a' b'
      in take (hi - lo) (drop lo s))"

text \<open>\<^verbatim>\<open>s.substring(a)\<close>: from the clamped index to the end.\<close>

definition substring_from :: "string \<Rightarrow> nat \<Rightarrow> string" where
  "substring_from s a = drop (min a (length s)) s"

text \<open>\<^verbatim>\<open>s.includes(sub)\<close>: \<open>sub\<close> occurs in \<open>s\<close> at some index.\<close>

fun includes_str :: "string \<Rightarrow> string \<Rightarrow> bool" where
  "includes_str [] sub = (sub = [])"
| "includes_str (c # s) sub = (take (length sub) (c # s) = sub \<or> includes_str s sub)"

text \<open>\<^verbatim>\<open>xs.join(sep)\<close> on an array of strings.\<close>

fun join :: "string \<Rightarrow> string list \<Rightarrow> string" where
  "join sep [] = []"
| "join sep [x] = x"
| "join sep (x # y # ys) = x @ sep @ join sep (y # ys)"

section \<open>Messages\<close>

text \<open>
  \<^verbatim>\<open>MessagePart = TextPart | CodePart | ImagePart\<close>, discriminated by the field
  \<^verbatim>\<open>type\<close>; \<^verbatim>\<open>Message = { role, parts }\<close>.
\<close>

datatype MessagePart =
    TextPart (content: string)
  | CodePart (content: string) (language: string)
  | ImagePart (imageUrl: string) (prompt: string)

datatype role = User | Ai

record Message =
  role :: role
  parts :: "MessagePart list"

section \<open>parseResponse\<close>

text \<open>
  \<^verbatim>\<open>const regex = /```(\w*)\n([\s\S]+?)```/g\<close>.

  \<open>\w\<close> is \<open>[A-Za-z0-9_]\<close> (the expression has neither the \<open>i\<close> nor the \<open>u\<close> flag),
  and \<open>[\s\S]\<close> is any code unit.
\<close>

definition fence :: string where
  "fence = ''```''"

definition is_word :: "char \<Rightarrow> bool" where
  "is_word c \<longleftrightarrow>
     c \<in> set (''abcdefghijklmnopqrstuvwxyz'' @ ''ABCDEFGHIJKLMNOPQRSTUVWXYZ'' @
               ''0123456789'' @ ''_'')"

text \<open>
  The lazy group \<open>([\s\S]+?)\<close> followed by the closing marker: after the one code unit
  the group must take, the match extends to the first index at which the marker occurs.
  \<open>find_close s\<close> is that index in \<open>s\<close>, if there is one.
\<close>

fun find_close :: "string \<Rightarrow> nat option" where
  "find_close [] = None"
| "find_close (c # s) =
     (if take 3 (c # s) = fence then Some 0 else map_option Suc (find_close s))"

text \<open>
  One attempt of the expression at the head of \<open>s\<close>: the opening marker, the
  greedy run \<open>(\w*)\<close>, a line feed, the lazy interior, the closing marker. The run is
  the longest one: a shorter run is followed by a word character, which is no line
  feed, so backtracking into it never matches. The result is group 1, group 2 and the
  length of the whole match.
\<close>

definition match_here :: "string \<Rightarrow> (string \<times> string \<times> nat) option" where
  "match_here s =
     (if take 3 s = fence then
        (let tag = takeWhile is_word (drop 3 s) in
         case dropWhile is_word (drop 3 s) of
           [] \<Rightarrow> None
         | c # interior \<Rightarrow>
             if c = newline then
               (case interior of
                  [] \<Rightarrow> None
                | b # rest \<Rightarrow>
                    (case find_close rest of
                       None \<Rightarrow> None
                     | Some k \<Rightarrow>
                         Some (tag, b # take k rest, 3 + length tag + 1 + (1 + k) + 3)))
             else None)
      else None)"

text \<open>
  The search of \<^verbatim>\<open>regex.exec\<close>: the first index, from \<open>i\<close> on, at which the
  expression matches; \<open>s\<close> is the text from index \<open>i\<close>. The result is
  \<^verbatim>\<open>match.index\<close>, the two groups and the new \<^verbatim>\<open>regex.lastIndex\<close>.
\<close>

fun search :: "string \<Rightarrow> nat \<Rightarrow> (nat \<times> string \<times> string \<times> nat) option" where
  "search [] i = None"
| "search (c # s) i =
     (case match_here (c # s) of
        Some (tag, interior, n) \<Rightarrow> Some (i, tag, interior, i + n)
      | None \<Rightarrow> search s (Suc i))"

definition exec :: "string \<Rightarrow> nat \<Rightarrow> (nat \<times> string \<times> string \<times> nat) option" where
  "exec text lastIndex =
     (if lastIndex > length text then None else search (drop lastIndex text) lastIndex)"

text \<open>
  The loop \<^verbatim>\<open>while ((match = regex.exec(text)) !== null)\<close> with the two variables
  it updates, \<^verbatim>\<open>parts\<close> and \<^verbatim>\<open>lastIndex\<close>. Every match is at least eight code
  units long, so \<^verbatim>\<open>regex.lastIndex\<close> grows and the loop ends: the termination
  proof follows the definitions.
\<close>

function parse_loop :: "string \<Rightarrow> nat \<Rightarrow> MessagePart list \<Rightarrow> MessagePart list \<times> nat" where
  "parse_loop text lastIndex ps =
     (case exec text lastIndex of
        None \<Rightarrow> (ps, lastIndex)
      | Some (index, tag, interior, lastIndex') \<Rightarrow>
          parse_loop text lastIndex'
            (ps
             @ (if index > lastIndex then [TextPart (substring text lastIndex index)] else [])
             @ [CodePart (trim interior)
                  (if toLowerCase tag = [] then ''plaintext'' else toLowerCase tag)]))"
  by pat_completeness auto

definition parseResponse :: "string \<Rightarrow> MessagePart list" where
  "parseResponse text =
     (case parse_loop text 0 [] of
        (ps, lastIndex) \<Rightarrow>
          (let ps' = (if lastIndex < length text
                      then ps @ [TextPart (substring_from text lastIndex)] else ps)
           in if length ps' > 0 then ps' else [TextPart text]))"

section \<open>getApiErrorMessage\<close>

text \<open>
  The argument \<^verbatim>\<open>error: any\<close> is a caught exception. The function reads two things
  of it: \<^verbatim>\<open>error?.message\<close>, which is a string for an Error object and
  \<^verbatim>\<open>undefined\<close> for a thrown primitive, \<^verbatim>\<open>null\<close> or \<^verbatim>\<open>undefined\<close>, and
  \<^verbatim>\<open>String(error)\<close>. A failure is modelled by these two; a \<^verbatim>\<open>message\<close> that is
  neither a string nor absent is outside the model. \<^verbatim>\<open>navigator.onLine\<close> is the
  parameter \<open>onLine\<close>.
\<close>

record js_error =
  message :: "string option"
  as_string :: string

text \<open>\<^verbatim>\<open>new Error(m)\<close>.\<close>

definition new_Error :: "string \<Rightarrow> js_error" where
  "new_Error m = \<lparr>message = Some m, as_string = (if m = [] then ''Error'' else ''Error: '' @ m)\<rparr>"

text \<open>\<^verbatim>\<open>error?.message || fallback\<close>: the empty string is falsy.\<close>

definition message_or :: "js_error \<Rightarrow> string \<Rightarrow> string" where
  "message_or error fallback =
     (case message error of
        Some m \<Rightarrow> if m \<noteq> [] then m else fallback
      | None \<Rightarrow> fallback)"

definition offline_text :: string where
  "offline_text = ''It seems you're offline. Please check your internet connection.''"

definition api_key_text :: string where
  "api_key_text = ''There seems to be an issue with the API key. Please verify it is correct and has the required permissions.''"

definition quota_text :: string where
  "quota_text = ''The API quota has been exceeded. Please check your usage limits.''"

definition service_text :: string where
  "service_text = ''The AI service is currently experiencing issues. Please try again in a few moments.''"

definition network_text :: string where
  "network_text = ''A network error occurred while trying to reach the AI service. Please check your connection.''"

definition unexpected_text :: "string \<Rightarrow> string" where
  "unexpected_text details = ''An unexpected error occurred. Details: '' @ details"

definition getApiErrorMessage :: "bool \<Rightarrow> js_error \<Rightarrow> string" where
  "getApiErrorMessage onLine error =
     (if \<not> onLine then offline_text
      else
        (let msg = toLowerCase (message_or error (as_string error)) in
         if includes_str msg ''api key not valid'' \<or> includes_str msg ''permission denied''
         then api_key_text
         else if includes_str msg ''quota'' then quota_text
         else if includes_str msg ''500'' \<or> includes_str msg ''503''
                 \<or> includes_str msg ''server error''
         then service_text
         else if includes_str msg ''fetch'' \<or> includes_str msg ''network'' then network_text
         else unexpected_text (message_or error ''No additional information available.'')))"

section \<open>The application state\<close>

text \<open>
  The component \<^verbatim>\<open>App\<close> keeps its state in React state variables; the handlers read
  them and set them. The state that the modelled handlers read or write is a record;
  \<^verbatim>\<open>loadingText\<close>, a label no handler reads, is left out. \<^verbatim>\<open>chat\<close> and \<^verbatim>\<open>ai\<close> are
  handles or \<^verbatim>\<open>null\<close>: the record has \<open>True\<close> for a handle. The calls made to
  \<^verbatim>\<open>window.speechSynthesis\<close> and to the speech recognizer are effects; the record
  keeps them in the order in which they are made.
\<close>

datatype synthesis_call = Cancel | Speak string

datatype recognition_call = Start | Stop

record app_state =
  messages :: "Message list"
  input :: string
  isLoading :: bool
  chat :: bool
  ai :: bool
  isListening :: bool
  isTtsEnabled :: bool
  speech :: "synthesis_call list"
  recognition :: "recognition_call list"

text \<open>The state after the \<^verbatim>\<open>useState\<close> initialisers.\<close>

definition initial_state :: app_state where
  "initial_state =
     \<lparr>messages = [], input = [], isLoading = False, chat = False, ai = False,
      isListening = False, isTtsEnabled = False, speech = [], recognition = []\<rparr>"

text \<open>
  What the handlers take from outside: \<^verbatim>\<open>navigator.onLine\<close>, the two capability
  flags, \<^verbatim>\<open>JSON.parse\<close> (\<open>None\<close> when it throws), \<^verbatim>\<open>chat.sendMessage\<close> (the
  exception it throws, or the \<^verbatim>\<open>text\<close> of the response, which may be
  \<^verbatim>\<open>undefined\<close>) and \<^verbatim>\<open>ai.models.generateImages\<close> (the exception, or
  \<^verbatim>\<open>generatedImages[0].image.imageBytes\<close> when every link of that chain is there).
\<close>

datatype json =
    JNull
  | JBool bool
  | JNumber real
  | JString string
  | JArray "json list"
  | JObject "(string \<times> json) list"

record env =
  onLine :: bool
  isTtsSupported :: bool
  isSpeechSupported :: bool
  JSON_parse :: "string \<Rightarrow> json option"
  sendMessage :: "string \<Rightarrow> js_error + string option"
  generateImages :: "string \<Rightarrow> js_error + string option"

subsection \<open>The speech effect\<close>

text \<open>
  \<^verbatim>\<open>.filter((part) => part.type === "text" && part.content.trim())\<close>: the text
  parts that are not blank.
\<close>

fun speakable :: "MessagePart \<Rightarrow> bool" where
  "speakable (TextPart c) = (trim c \<noteq> [])"
| "speakable (CodePart c l) = False"
| "speakable (ImagePart u p) = False"

definition textToSpeak :: "Message \<Rightarrow> string" where
  "textToSpeak lastMessage = join '' '' (map content (filter speakable (parts lastMessage)))"

text \<open>
  The effect with the dependencies \<^verbatim>\<open>[messages, isTtsEnabled, isTtsSupported]\<close>.
  React runs it after a commit in which one of them has changed.
\<close>

definition tts_effect :: "env \<Rightarrow> app_state \<Rightarrow> app_state" where
  "tts_effect e st =
     (if \<not> isTtsEnabled st \<or> \<not> isTtsSupported e \<or> length (messages st) = 0 then st
      else
        (let lastMessage = last (messages st) in
         if role lastMessage = Ai then
           (if textToSpeak lastMessage \<noteq> []
            then st\<lparr>speech := speech st @ [Speak (textToSpeak lastMessage)]\<rparr>
            else st)
         else st))"

text \<open>\<^verbatim>\<open>setMessages((prev) => [...prev, m])\<close>, and the effect that follows the commit.\<close>

definition append_message :: "env \<Rightarrow> Message \<Rightarrow> app_state \<Rightarrow> app_state" where
  "append_message e m st = tts_effect e (st\<lparr>messages := messages st @ [m]\<rparr>)"

text \<open>\<^verbatim>\<open>setMessages([m])\<close>, and the effect that follows the commit.\<close>

definition set_messages :: "env \<Rightarrow> Message list \<Rightarrow> app_state \<Rightarrow> app_state" where
  "set_messages e ms st = tts_effect e (st\<lparr>messages := ms\<rparr>)"

subsection \<open>initializeChat\<close>

definition ai_message :: "MessagePart list \<Rightarrow> Message" where
  "ai_message ps = \<lparr>role = Ai, parts = ps\<rparr>"

text \<open>
  The function takes the presence of \<^verbatim>\<open>API_KEY\<close> and the outcome of creating the
  client and the chat session: both are created, or \<^verbatim>\<open>new GoogleGenAI\<close> throws, or
  \<^verbatim>\<open>genAI.chats.create\<close> throws after \<^verbatim>\<open>setAi\<close>.
\<close>

datatype creation = Created | Client_fails js_error | Session_fails js_error

definition initializeChat :: "env \<Rightarrow> bool \<Rightarrow> creation \<Rightarrow> app_state \<Rightarrow> app_state" where
  "initializeChat e has_API_KEY created st =
     (if \<not> has_API_KEY then
        set_messages e
          [ai_message [TextPart ''Configuration Error: The API key is missing. Please ensure it is set up correctly in your environment.'']]
          st
      else
        (case created of
           Created \<Rightarrow> st\<lparr>ai := True, chat := True\<rparr>
         | Client_fails error \<Rightarrow>
             set_messages e
               [ai_message [TextPart (''Error: Could not initialize the AI. ''
                                      @ getApiErrorMessage (onLine e) error)]]
               st
         | Session_fails error \<Rightarrow>
             set_messages e
               [ai_message [TextPart (''Error: Could not initialize the AI. ''
                                      @ getApiErrorMessage (onLine e) error)]]
               (st\<lparr>ai := True\<rparr>)))"

subsection \<open>handleImageGeneration\<close>

definition image_failed :: "env \<Rightarrow> js_error \<Rightarrow> Message" where
  "image_failed e error =
     ai_message [TextPart (''Sorry, I couldn't create the image. ''
                           @ getApiErrorMessage (onLine e) error)]"

definition handleImageGeneration :: "env \<Rightarrow> string \<Rightarrow> app_state \<Rightarrow> app_state" where
  "handleImageGeneration e prompt' st =
     (if \<not> ai st then st
      else
        (case generateImages e prompt' of
           Inl error \<Rightarrow> append_message e (image_failed e error) st
         | Inr base64ImageBytes \<Rightarrow>
             (case base64ImageBytes of
                None \<Rightarrow>
                  append_message e (image_failed e (new_Error ''No image data received.'')) st
              | Some bytes \<Rightarrow>
                  if bytes = [] then
                    append_message e (image_failed e (new_Error ''No image data received.'')) st
                  else
                    append_message e
                      (ai_message [ImagePart (''data:image/jpeg;base64,'' @ bytes) prompt']) st)))"

subsection \<open>handleSubmit\<close>

text \<open>
  \<^verbatim>\<open>potentialJson.image_prompt\<close>: reading a property of \<^verbatim>\<open>null\<close> throws; an object
  has the property when the key is among its members, the last one of that name counting;
  every other parsed value has no such property.
\<close>

datatype property = Throws | Undefined | Value json

fun read_image_prompt :: "json \<Rightarrow> property" where
  "read_image_prompt JNull = Throws"
| "read_image_prompt (JObject members) =
     (case map_of (rev members) ''image_prompt'' of None \<Rightarrow> Undefined | Some v \<Rightarrow> Value v)"
| "read_image_prompt (JBool b) = Undefined"
| "read_image_prompt (JNumber x) = Undefined"
| "read_image_prompt (JString s) = Undefined"
| "read_image_prompt (JArray xs) = Undefined"

fun truthy :: "json \<Rightarrow> bool" where
  "truthy JNull = False"
| "truthy (JBool b) = b"
| "truthy (JNumber x) = (x \<noteq> 0)"
| "truthy (JString s) = (s \<noteq> [])"
| "truthy (JArray xs) = True"
| "truthy (JObject members) = True"

text \<open>
  The inner \<^verbatim>\<open>try\<close> block of handleSubmit, from the outcome of
  \<^verbatim>\<open>JSON.parse(responseText)\<close>: the prompt handed to handleImageGeneration when
  \<^verbatim>\<open>isJson\<close> becomes true, \<open>None\<close> when it stays false. Every exception ends in the
  empty \<^verbatim>\<open>catch\<close>.
\<close>

definition image_directive :: "json option \<Rightarrow> string option" where
  "image_directive parsed =
     (case parsed of
        None \<Rightarrow> None
      | Some potentialJson \<Rightarrow>
          (case read_image_prompt potentialJson of
             Throws \<Rightarrow> None
           | Undefined \<Rightarrow> None
           | Value v \<Rightarrow>
               (case v of
                  JString s \<Rightarrow> if truthy v then Some s else None
                | _ \<Rightarrow> None)))"

definition user_message :: "string \<Rightarrow> Message" where
  "user_message s = \<lparr>role = User, parts = [TextPart s]\<rparr>"

definition submit_failed :: "env \<Rightarrow> js_error \<Rightarrow> Message" where
  "submit_failed e error =
     ai_message [TextPart (''Sorry, something went wrong. '' @ getApiErrorMessage (onLine e) error)]"

text \<open>
  handleSubmit is asynchronous: it suspends at \<^verbatim>\<open>await chat.sendMessage\<close> and, for an
  image directive, at \<^verbatim>\<open>await ai.models.generateImages\<close>. The model takes the
  outcome of each request from the environment and runs the handler to its end; other
  handlers are not interleaved with a pending request.

  The statements before \<^verbatim>\<open>await chat.sendMessage\<close>, once the guard has let the call
  pass. \<^verbatim>\<open>recognitionRef.current\<close> is set only where speech recognition is supported,
  so \<^verbatim>\<open>recognitionRef.current?.stop()\<close> is a call only there.
\<close>

definition begin_submit :: "env \<Rightarrow> app_state \<Rightarrow> app_state" where
  "begin_submit e st =
     (let st1 = (if isListening st \<and> isSpeechSupported e
                 then st\<lparr>recognition := recognition st @ [Stop]\<rparr> else st);
          st2 = (if isTtsSupported e then st1\<lparr>speech := speech st1 @ [Cancel]\<rparr> else st1);
          st3 = append_message e (user_message (input st)) st2
      in st3\<lparr>input := [], isLoading := True\<rparr>)"

text \<open>The rest of the outer \<^verbatim>\<open>try\<close> block, from the outcome of the request.\<close>

definition on_reply :: "env \<Rightarrow> js_error + string option \<Rightarrow> app_state \<Rightarrow> app_state" where
  "on_reply e outcome st =
     (case outcome of
        Inl error \<Rightarrow> append_message e (submit_failed e error) st
      | Inr response_text \<Rightarrow>
          (let responseText = trim (case response_text of None \<Rightarrow> [] | Some t \<Rightarrow> t) in
           case image_directive (JSON_parse e responseText) of
             Some image_prompt \<Rightarrow> handleImageGeneration e image_prompt st
           | None \<Rightarrow> append_message e (ai_message (parseResponse responseText)) st))"

definition handleSubmit :: "env \<Rightarrow> app_state \<Rightarrow> app_state" where
  "handleSubmit e st =
     (if trim (input st) = [] \<or> isLoading st \<or> \<not> chat st then st
      else
        (let currentInput = input st;
             st1 = begin_submit e st;
             st2 = on_reply e (sendMessage e currentInput) st1
         in st2\<lparr>isLoading := False\<rparr>))"

subsection \<open>handleListen and handleTtsToggle\<close>

definition handleListen :: "env \<Rightarrow> app_state \<Rightarrow> app_state" where
  "handleListen e st =
     (if \<not> isSpeechSupported e then st
      else
        (let st1 = (if isTtsSupported e then st\<lparr>speech := speech st @ [Cancel]\<rparr> else st)
         in if isListening st1
            then st1\<lparr>recognition := recognition st1 @ [Stop]\<rparr>
            else st1\<lparr>input := [], recognition := recognition st1 @ [Start],
                      isListening := True\<rparr>))"

definition handleTtsToggle :: "env \<Rightarrow> app_state \<Rightarrow> app_state" where
  "handleTtsToggle e st =
     (if \<not> isTtsSupported e then st
      else
        (let st1 = (if isTtsEnabled st then st\<lparr>speech := speech st @ [Cancel]\<rparr> else st)
         in tts_effect e (st1\<lparr>isTtsEnabled := \<not> isTtsEnabled st1\<rparr>)))"

subsection \<open>Runs\<close>

text \<open>
  What can happen once the component is mounted: the form is submitted, the speech button
  or the microphone button is pressed, the draft input is set (by typing, or by
  \<^verbatim>\<open>recognition.onresult\<close>), the recognizer ends (\<^verbatim>\<open>recognition.onend\<close>). A
  submit is taken with the reply that ends its turn. Every event comes with the
  environment in which it happens.
\<close>

datatype event = Submit | Toggle_tts | Listen | Set_input string | Recognition_end

fun step :: "env \<times> event \<Rightarrow> app_state \<Rightarrow> app_state" where
  "step (e, Submit) st = handleSubmit e st"
| "step (e, Toggle_tts) st = handleTtsToggle e st"
| "step (e, Listen) st = handleListen e st"
| "step (e, Set_input s) st = st\<lparr>input := s\<rparr>"
| "step (e, Recognition_end) st = st\<lparr>isListening := False\<rparr>"

fun run :: "(env \<times> event) list \<Rightarrow> app_state \<Rightarrow> app_state" where
  "run [] st = st"
| "run (ev # evs) st = run evs (step ev st)"

subsection \<open>Runs with requests pending\<close>

text \<open>
  The asynchronous handleSubmit step by step. Between its \<^verbatim>\<open>await\<close>s other handlers
  may run; what is left of the suspended handler is the request it waits for.
\<close>

datatype pending = No_request | Reply_pending | Image_pending string

text \<open>
  The \<^verbatim>\<open>try\<close> block of handleImageGeneration after
  \<^verbatim>\<open>await ai.models.generateImages\<close>, from the outcome of that request.
\<close>

definition image_arrives :: "env \<Rightarrow> string \<Rightarrow> js_error + string option \<Rightarrow> app_state \<Rightarrow> app_state" where
  "image_arrives e prompt' outcome st =
     (case outcome of
        Inl error \<Rightarrow> append_message e (image_failed e error) st
      | Inr None \<Rightarrow> append_message e (image_failed e (new_Error ''No image data received.'')) st
      | Inr (Some bytes) \<Rightarrow>
          if bytes = [] then
            append_message e (image_failed e (new_Error ''No image data received.'')) st
          else
            append_message e
              (ai_message [ImagePart (''data:image/jpeg;base64,'' @ bytes) prompt']) st)"

datatype async_event =
    Submit_form
  | Reply "js_error + string option"
  | Image "js_error + string option"
  | Press_tts
  | Press_mic
  | Typed string
  | Recognizer_ended

fun async_step :: "env \<Rightarrow> async_event \<Rightarrow> app_state \<times> pending \<Rightarrow> app_state \<times> pending" where
  "async_step e Submit_form (st, p) =
     (if trim (input st) = [] \<or> isLoading st \<or> \<not> chat st then (st, p)
      else (begin_submit e st, Reply_pending))"
| "async_step e (Reply outcome) (st, p) =
     (case p of
        Reply_pending \<Rightarrow>
          (case outcome of
             Inl error \<Rightarrow>
               ((append_message e (submit_failed e error) st)\<lparr>isLoading := False\<rparr>, No_request)
           | Inr response_text \<Rightarrow>
               (let responseText = trim (case response_text of None \<Rightarrow> [] | Some t \<Rightarrow> t) in
                case image_directive (JSON_parse e responseText) of
                  Some image_prompt \<Rightarrow>
                    if \<not> ai st then (st\<lparr>isLoading := False\<rparr>, No_request)
                    else (st, Image_pending image_prompt)
                | None \<Rightarrow>
                    ((append_message e (ai_message (parseResponse responseText)) st)
                       \<lparr>isLoading := False\<rparr>, No_request)))
      | _ \<Rightarrow> (st, p))"
| "async_step e (Image outcome) (st, p) =
     (case p of
        Image_pending image_prompt \<Rightarrow>
          ((image_arrives e image_prompt outcome st)\<lparr>isLoading := False\<rparr>, No_request)
      | _ \<Rightarrow> (st, p))"
| "async_step e Press_tts (st, p) = (handleTtsToggle e st, p)"
| "async_step e Press_mic (st, p) = (handleListen e st, p)"
| "async_step e (Typed s) (st, p) = (st\<lparr>input := s\<rparr>, p)"
| "async_step e Recognizer_ended (st, p) = (st\<lparr>isListening := False\<rparr>, p)"

fun async_run :: "env \<Rightarrow> async_event list \<Rightarrow> app_state \<times> pending \<Rightarrow> app_state \<times> pending" where
  "async_run e [] c = c"
| "async_run e (ev # evs) c = async_run e evs (async_step e ev c)"

section \<open>handleRunCode\<close>

text \<open>
  The handler of the component \<^verbatim>\<open>CodeBlock\<close> runs \<^verbatim>\<open>new Function(code)()\<close> with
  \<^verbatim>\<open>console.log\<close> replaced by an interceptor. What the handler sees of the code is
  its behaviour: the calls it makes to \<^verbatim>\<open>console.log\<close>, in order, and how it ends.

  An argument of a call is an object (\<^verbatim>\<open>typeof arg === "object"\<close>), converted by
  \<^verbatim>\<open>JSON.stringify(arg, null, 2)\<close>, or another value, converted by
  \<^verbatim>\<open>String(arg)\<close>; it is modelled by the result of its conversion, \<open>None\<close> when the
  conversion throws.
\<close>

datatype log_arg = ObjectArg "string option" | OtherArg "string option"

text \<open>
  A thrown value is \<^verbatim>\<open>null\<close> or \<^verbatim>\<open>undefined\<close>, or a value with its property
  \<^verbatim>\<open>message\<close>: a string for an Error object, \<^verbatim>\<open>undefined\<close> (\<open>None\<close>) for a thrown
  string or number.
\<close>

datatype thrown = Nullish | Thrown "string option"

text \<open>
  The code returns \<^verbatim>\<open>undefined\<close>, or a value for which
  \<^verbatim>\<open>JSON.stringify(result, null, 2)\<close> gives a text in the template string or throws,
  or the code throws; a syntax error thrown by \<^verbatim>\<open>new Function\<close> is a throw as well.
\<close>

datatype completion =
    Returns_undefined
  | Returns "thrown + string"
  | Raises thrown

record behaviour =
  calls :: "log_arg list list"
  completion :: completion

text \<open>
  The state of the component (\<^verbatim>\<open>output\<close> as \<open>output_lines\<close>, \<^verbatim>\<open>error\<close> as
  \<open>error_state\<close>) and the global binding
  \<^verbatim>\<open>console.log\<close>. The \<^verbatim>\<open>error\<close> state is \<^verbatim>\<open>null\<close>, a string, or
  \<^verbatim>\<open>undefined\<close> after \<^verbatim>\<open>setError(undefined)\<close>; the component shows it only when
  it is a non-empty string.
\<close>

datatype error_slot = Null | Shown string | Undefined_slot

datatype log_binding = OriginalLog | Interceptor

record block_state =
  output_lines :: "string list"
  error_state :: error_slot
  console_log :: log_binding

datatype exn = TypeError

fun render_arg :: "log_arg \<Rightarrow> string" where
  "render_arg (ObjectArg (Some s)) = s"
| "render_arg (OtherArg (Some s)) = s"
| "render_arg (ObjectArg None) = ''Could not stringify object''"
| "render_arg (OtherArg None) = ''Could not stringify object''"

text \<open>The line the interceptor pushes for one call.\<close>

definition log_line :: "log_arg list \<Rightarrow> string" where
  "log_line args = join '' '' (map render_arg args)"

text \<open>
  The \<^verbatim>\<open>try\<close> block: the lines in \<^verbatim>\<open>logs\<close> when it ends, and the exception that
  reaches \<^verbatim>\<open>catch\<close>, if any.
\<close>

definition try_block :: "behaviour \<Rightarrow> string list \<times> thrown option" where
  "try_block b =
     (let logs = map log_line (calls b) in
      case completion b of
        Returns_undefined \<Rightarrow> (logs, None)
      | Returns (Inr s) \<Rightarrow> (logs @ [''=> '' @ s], None)
      | Returns (Inl e) \<Rightarrow> (logs, Some e)
      | Raises e \<Rightarrow> (logs, Some e))"

text \<open>
  The \<^verbatim>\<open>catch\<close> block, \<^verbatim>\<open>setError(e.message)\<close>: reading \<^verbatim>\<open>message\<close> of
  \<^verbatim>\<open>null\<close> or \<^verbatim>\<open>undefined\<close> throws a TypeError, which leaves the handler after
  the \<^verbatim>\<open>finally\<close> block.
\<close>

definition catch_block :: "thrown \<Rightarrow> block_state \<Rightarrow> block_state \<times> exn option" where
  "catch_block e st =
     (case e of
        Nullish \<Rightarrow> (st, Some TypeError)
      | Thrown None \<Rightarrow> (st\<lparr>error_state := Undefined_slot\<rparr>, None)
      | Thrown (Some m) \<Rightarrow> (st\<lparr>error_state := Shown m\<rparr>, None))"

text \<open>The handler: the new state, and the exception that propagates to its caller.\<close>

definition handleRunCode :: "behaviour \<Rightarrow> block_state \<Rightarrow> block_state \<times> exn option" where
  "handleRunCode b st =
     (let originalConsoleLog = console_log st;
          st1 = st\<lparr>output_lines := [], error_state := Null, console_log := Interceptor\<rparr>;
          (logs, caught) = try_block b;
          (st2, escaped) = (case caught of None \<Rightarrow> (st1, None) | Some e \<Rightarrow> catch_block e st1)
      in (st2\<lparr>console_log := originalConsoleLog, output_lines := logs\<rparr>, escaped))"

section \<open>Notions used in the properties\<close>

subsection \<open>Segments of an input of parseResponse\<close>

text \<open>
  The input seen as the parser cuts it: a sequence of plain stretches and fenced regions.
  A fenced region is written opening marker, tag, line feed, interior, closing marker;
  \<open>part_of\<close> is the part the parser emits for a segment.
\<close>

datatype segment = Plain string | Fenced string string

fun render_segment :: "segment \<Rightarrow> string" where
  "render_segment (Plain c) = c"
| "render_segment (Fenced tag interior) = fence @ tag @ [newline] @ interior @ fence"

definition render :: "segment list \<Rightarrow> string" where
  "render segs = concat (map render_segment segs)"

fun part_of :: "segment \<Rightarrow> MessagePart" where
  "part_of (Plain c) = TextPart c"
| "part_of (Fenced tag interior) =
     CodePart (trim interior) (if tag = [] then ''plaintext'' else toLowerCase tag)"

text \<open>A fenced region somewhere in the text, whatever surrounds it.\<close>

definition has_fenced_region :: "string \<Rightarrow> bool" where
  "has_fenced_region s \<longleftrightarrow>
     (\<exists>pre tag interior post.
        s = pre @ render_segment (Fenced tag interior) @ post \<and>
        list_all is_word tag \<and> interior \<noteq> [])"

text \<open>
  The part a segment would give if the language were the lower-cased tag in every case,
  the empty tag included.
\<close>

fun part_of_literal :: "segment \<Rightarrow> MessagePart" where
  "part_of_literal (Plain c) = TextPart c"
| "part_of_literal (Fenced tag interior) = CodePart (trim interior) (toLowerCase tag)"

text \<open>
  The reconstruction the claim speaks of: the content of a Text part as it is, a Code part
  wrapped again as opening marker, language, line feed, content, closing marker.
\<close>

fun refence_part :: "MessagePart \<Rightarrow> string" where
  "refence_part (TextPart c) = c"
| "refence_part (CodePart c l) = fence @ l @ [newline] @ c @ fence"
| "refence_part (ImagePart u p) = []"

definition refence :: "MessagePart list \<Rightarrow> string" where
  "refence ps = concat (map refence_part ps)"

text \<open>A segment with its interior trimmed and its tag lower-cased, \<open>plaintext\<close> standing
  for the empty tag.\<close>

fun normal_segment :: "segment \<Rightarrow> segment" where
  "normal_segment (Plain c) = Plain c"
| "normal_segment (Fenced tag interior) =
     Fenced (if tag = [] then ''plaintext'' else toLowerCase tag) (trim interior)"


subsection \<open>Case-insensitive occurrence\<close>

text \<open>
  A phrase occurs in a text whatever the case of the letters: some stretch of the text
  lower-cases to the phrase.
\<close>

definition mentions :: "string \<Rightarrow> string \<Rightarrow> bool" where
  "mentions s phrase \<longleftrightarrow> (\<exists>pre mid post. s = pre @ mid @ post \<and> toLowerCase mid = phrase)"

subsection \<open>Messages and speech\<close>

fun is_image :: "MessagePart \<Rightarrow> bool" where
  "is_image (ImagePart u p) = True"
| "is_image (TextPart c) = False"
| "is_image (CodePart c l) = False"

text \<open>A message with an Image part has that part and no other; any other message has no
  Image part.\<close>

definition image_exclusive :: "Message \<Rightarrow> bool" where
  "image_exclusive m =
     (case parts m of
        [ImagePart u p] \<Rightarrow> True
      | ps \<Rightarrow> list_all (\<lambda>p. \<not> is_image p) ps)"

text \<open>The contents of the Text parts that are not blank, in order.\<close>

fun non_blank_texts :: "MessagePart list \<Rightarrow> string list" where
  "non_blank_texts [] = []"
| "non_blank_texts (TextPart c # ps) =
     (if trim c = [] then non_blank_texts ps else c # non_blank_texts ps)"
| "non_blank_texts (CodePart c l # ps) = non_blank_texts ps"
| "non_blank_texts (ImagePart u p # ps) = non_blank_texts ps"

text \<open>The contents of all Text parts, in order, blank ones included.\<close>

fun all_texts :: "MessagePart list \<Rightarrow> string list" where
  "all_texts [] = []"
| "all_texts (TextPart c # ps) = c # all_texts ps"
| "all_texts (CodePart c l # ps) = all_texts ps"
| "all_texts (ImagePart u p # ps) = all_texts ps"

text \<open>What a reply adds to the speech calls: nothing, or one utterance for the message
  that has become the last one.\<close>

definition utterance :: "env \<Rightarrow> app_state \<Rightarrow> synthesis_call list" where
  "utterance e st =
     (if isTtsEnabled st \<and> isTtsSupported e \<and> messages st \<noteq> []
         \<and> role (last (messages st)) = Ai \<and> textToSpeak (last (messages st)) \<noteq> []
      then [Speak (textToSpeak (last (messages st)))] else [])"

text \<open>
  The calls to the synthesizer are well spaced when no utterance begins while another may
  be in progress: between two \<open>Speak\<close> calls there is a \<open>Cancel\<close>. The flag says whether an
  utterance may be in progress at the start of the list.
\<close>

fun spaced :: "bool \<Rightarrow> synthesis_call list \<Rightarrow> bool" where
  "spaced speaking [] = True"
| "spaced speaking (Cancel # cs) = spaced False cs"
| "spaced speaking (Speak t # cs) = (\<not> speaking \<and> spaced True cs)"

text \<open>No utterance can be in progress after these calls.\<close>

fun silent :: "bool \<Rightarrow> synthesis_call list \<Rightarrow> bool" where
  "silent speaking [] = (\<not> speaking)"
| "silent speaking (Cancel # cs) = silent False cs"
| "silent speaking (Speak t # cs) = silent True cs"

definition speech_ok :: "app_state \<Rightarrow> bool" where
  "speech_ok st \<longleftrightarrow>
     spaced False (speech st) \<and> (isTtsEnabled st \<or> silent False (speech st))"

text \<open>What holds between the steps: a request is pending exactly while \<^verbatim>\<open>isLoading\<close>
  is set, the log then ends with the user's message and no utterance is in progress; the
  calls to the synthesizer are well spaced; the messages with an Image part have no other
  part.\<close>

definition async_ok :: "env \<Rightarrow> app_state \<times> pending \<Rightarrow> bool" where
  "async_ok e c =
     (case c of (st, p) \<Rightarrow>
        isLoading st = (p \<noteq> No_request)
        \<and> (p = No_request \<or>
             (messages st \<noteq> [] \<and> role (last (messages st)) = User
              \<and> silent False (speech st)))
        \<and> speech_ok st
        \<and> (isTtsSupported e \<or> speech st = [])
        \<and> list_all image_exclusive (messages st))"

subsection \<open>States and environments of the runs below\<close>

text \<open>
  For the runs below: the state once the chat session exists, and an environment that is
  online, supports speech, and whose service answers every request with the same text, a
  text that is not JSON.
\<close>

definition ready_state :: app_state where
  "ready_state = initial_state\<lparr>chat := True, ai := True\<rparr>"

definition prose_env :: "string \<Rightarrow> env" where
  "prose_env reply =
     \<lparr>onLine = True, isTtsSupported = True, isSpeechSupported = True,
      JSON_parse = (\<lambda>s. None), sendMessage = (\<lambda>s. Inr (Some reply)),
      generateImages = (\<lambda>s. Inr None)\<rparr>"

section \<open>Termination of the parse loop\<close>

lemma find_close_bound: "find_close s = Some k \<Longrightarrow> k + 3 \<le> length s"
proof (induction s arbitrary: k)
  case Nil
  then show ?case by simp
next
  case (Cons c s)
  show ?case
  proof (cases "take 3 (c # s) = fence")
    case True
    then have "length (take 3 (c # s)) = 3" by (simp add: fence_def)
    moreover from True Cons.prems have "k = 0" by simp
    ultimately show ?thesis by simp
  next
    case False
    with Cons.prems obtain j where "find_close s = Some j" "k = Suc j" by auto
    with Cons.IH show ?thesis by fastforce
  qed
qed

lemma match_here_bound:
  assumes "match_here s = Some (tag, interior, n)"
  shows "0 < n \<and> n \<le> length s"
proof -
  from assms have f: "take 3 s = fence"
    by (auto simp: match_here_def split: if_splits)
  then have "length (take 3 s) = 3" by (simp add: fence_def)
  then have l3: "3 \<le> length s" by simp
  from assms f obtain b rest k where
    d: "dropWhile is_word (drop 3 s) = newline # b # rest" and
    k: "find_close rest = Some k" and
    n: "n = 3 + length (takeWhile is_word (drop 3 s)) + 1 + (1 + k) + 3"
    by (auto simp: match_here_def Let_def split: list.splits if_splits option.splits)
  have "length (drop 3 s) =
      length (takeWhile is_word (drop 3 s)) + length (dropWhile is_word (drop 3 s))"
    by (metis length_append takeWhile_dropWhile_id)
  with d l3 have "length s = 3 + length (takeWhile is_word (drop 3 s)) + 2 + length rest"
    by simp
  with find_close_bound [OF k] n show ?thesis by linarith
qed

lemma search_bound:
  "search s i = Some (idx, tag, interior, li) \<Longrightarrow> i \<le> idx \<and> idx < li \<and> li \<le> i + length s"
proof (induction s arbitrary: i)
  case Nil
  then show ?case by simp
next
  case (Cons c s)
  show ?case
  proof (cases "match_here (c # s)")
    case None
    with Cons.prems have "search s (Suc i) = Some (idx, tag, interior, li)" by simp
    from Cons.IH [OF this] show ?thesis by simp
  next
    case (Some r)
    obtain t b n where r: "r = (t, b, n)" by (cases r) auto
    from match_here_bound [of "c # s" t b n] Some r
    have "0 < n \<and> n \<le> length (c # s)" by simp
    with Cons.prems Some r show ?thesis by auto
  qed
qed

lemma exec_bound:
  "exec text lastIndex = Some (idx, tag, interior, li) \<Longrightarrow>
     lastIndex \<le> idx \<and> idx < li \<and> li \<le> length text"
  using search_bound [of "drop lastIndex text" lastIndex idx tag interior li]
  by (auto simp: exec_def split: if_splits)

termination parse_loop
proof (relation "measure (\<lambda>(t, lastIndex, ps). length t - lastIndex)", goal_cases)
  case 1
  show ?case by simp
next
  case (2 t lastIndex ps r index r1 tag r2 interior lastIndex')
  then have "exec t lastIndex = Some (index, tag, interior, lastIndex')" by simp
  from exec_bound [OF this] have "length t - lastIndex' < length t - lastIndex" by linarith
  then show ?case by simp
qed

declare parse_loop.simps [simp del]



section \<open>Properties of parseResponse\<close>

lemma length_fence: "length fence = 3"
  by (simp add: fence_def)

lemma match_here_fence: "match_here s = Some r \<Longrightarrow> take 3 s = fence"
  by (simp add: match_here_def split: if_splits)

lemma search_no_fence: "\<not> includes_str s fence \<Longrightarrow> search s i = None"
proof (induction s arbitrary: i)
  case Nil
  then show ?case by simp
next
  case (Cons c s)
  from Cons.prems have "take 3 (c # s) \<noteq> fence" and rest: "\<not> includes_str s fence"
    by (simp_all add: length_fence)
  then have "match_here (c # s) = None"
    using match_here_fence [of "c # s"] by (cases "match_here (c # s)") auto
  with Cons.IH [OF rest] show ?case by simp
qed

lemma includes_str_drop: "includes_str (drop n s) sub \<Longrightarrow> sub \<noteq> [] \<Longrightarrow> includes_str s sub"
proof (induction s arbitrary: n)
  case Nil
  then show ?case by simp
next
  case (Cons c s)
  show ?case
  proof (cases n)
    case 0
    with Cons.prems show ?thesis by simp
  next
    case (Suc m)
    with Cons.prems have "includes_str (drop m s) sub" by simp
    from Cons.IH [OF this Cons.prems(2)] show ?thesis by simp
  qed
qed

lemma exec_no_fence: "\<not> includes_str text fence \<Longrightarrow> exec text lastIndex = None"
proof -
  assume a: "\<not> includes_str text fence"
  have "fence \<noteq> []" by (simp add: fence_def)
  with a includes_str_drop [of lastIndex "text" fence]
  have "\<not> includes_str (drop lastIndex text) fence" by blast
  then show ?thesis by (simp add: exec_def search_no_fence)
qed

lemma parseResponse_no_match: "exec text 0 = None \<Longrightarrow> parseResponse text = [TextPart text]"
  by (simp add: parseResponse_def parse_loop.simps [of _ 0 "[]"] substring_from_def)

text \<open>
  Claim C8. On the input \<^verbatim>\<open>Hello ```js\nconsole.log(1)\n``` bye\<close> parseResponse
  returns exactly the three parts Text \<open>Hello \<close>, Code (language \<open>js\<close>, content
  \<open>console.log(1)\<close>) and Text \<open> bye\<close>, in this order; and on every input in which
  the fence marker does not occur it returns exactly one Text part, equal to the input.
\<close>

theorem parseResponse_examples:
  "parseResponse (''Hello ```js'' @ [newline] @ ''console.log(1)'' @ [newline] @ ''``` bye'')
     = [TextPart ''Hello '', CodePart ''console.log(1)'' ''js'', TextPart '' bye'']
   \<and> (\<not> includes_str text fence \<longrightarrow> parseResponse text = [TextPart text])"
proof
  show "parseResponse (''Hello ```js'' @ [newline] @ ''console.log(1)'' @ [newline] @ ''``` bye'')
     = [TextPart ''Hello '', CodePart ''console.log(1)'' ''js'', TextPart '' bye'']"
    by code_simp
next
  show "\<not> includes_str text fence \<longrightarrow> parseResponse text = [TextPart text]"
    by (simp add: exec_no_fence parseResponse_no_match)
qed

theorem parseResponse_examples_witness:
  "\<not> includes_str ''just prose'' fence \<and> parseResponse ''just prose'' = [TextPart ''just prose'']"
proof -
  have h: "\<not> includes_str ''just prose'' fence" by code_simp
  with parseResponse_examples [of "''just prose''"] show ?thesis by blast
qed

subsection \<open>Reconstruction of the input\<close>

lemma find_close_fence: "find_close s = Some k \<Longrightarrow> take 3 (drop k s) = fence"
proof (induction s arbitrary: k)
  case Nil
  then show ?case by simp
next
  case (Cons c s)
  show ?case
  proof (cases "take 3 (c # s) = fence")
    case True
    with Cons.prems show ?thesis by simp
  next
    case False
    with Cons.prems obtain j where "find_close s = Some j" "k = Suc j" by auto
    with Cons.IH show ?thesis by simp
  qed
qed

lemma match_here_shape:
  assumes "match_here s = Some (tag, interior, n)"
  shows "s = fence @ tag @ [newline] @ interior @ fence @ drop n s
         \<and> n = length tag + length interior + 7
         \<and> list_all is_word tag \<and> interior \<noteq> []"
proof -
  from assms have f: "take 3 s = fence"
    by (auto simp: match_here_def split: if_splits)
  from assms f obtain b rest k where
    tag: "tag = takeWhile is_word (drop 3 s)" and
    d: "dropWhile is_word (drop 3 s) = newline # b # rest" and
    k: "find_close rest = Some k" and
    i: "interior = b # take k rest" and
    n: "n = 3 + length tag + 1 + (1 + k) + 3"
    by (auto simp: match_here_def Let_def split: list.splits if_splits option.splits)
  have s1: "s = fence @ drop 3 s" using f by (metis append_take_drop_id)
  have s2: "drop 3 s = tag @ newline # b # rest"
    using tag d by (metis takeWhile_dropWhile_id)
  from find_close_bound [OF k] have kl: "k \<le> length rest" by simp
  have "drop k rest = fence @ drop 3 (drop k rest)"
    using find_close_fence [OF k] by (metis append_take_drop_id)
  then have s3: "rest = take k rest @ fence @ drop (k + 3) rest"
    by (metis add.commute append_take_drop_id drop_drop)
  have len: "length (fence @ tag @ [newline] @ interior @ fence) = n"
    using i n kl by (simp add: length_fence)
  have whole: "s = (fence @ tag @ [newline] @ interior @ fence) @ drop (k + 3) rest"
    using s1 s2 s3 i by (metis append.assoc append_Cons append_Nil)
  have "drop n s = drop (k + 3) rest"
    using whole len by (metis append_eq_conv_conj)
  with whole have "s = fence @ tag @ [newline] @ interior @ fence @ drop n s" by simp
  moreover have "n = length tag + length interior + 7" using len by (simp add: length_fence)
  moreover have "list_all is_word tag"
    unfolding tag list_all_iff using set_takeWhileD by fastforce
  moreover have "interior \<noteq> []" using i by simp
  ultimately show ?thesis by blast
qed

lemma match_here_render:
  assumes "match_here s = Some (tag, interior, n)"
  shows "s = render_segment (Fenced tag interior) @ drop n s"
    and "n = length (render_segment (Fenced tag interior))"
proof -
  from match_here_shape [OF assms]
  have a: "s = fence @ tag @ [newline] @ interior @ fence @ drop n s"
    and b: "n = length tag + length interior + 7"
    by blast+
  have e: "render_segment (Fenced tag interior) @ drop n s
             = fence @ tag @ [newline] @ interior @ fence @ drop n s"
    by simp
  show "s = render_segment (Fenced tag interior) @ drop n s"
    by (rule trans [OF a e [symmetric]])
  show "n = length (render_segment (Fenced tag interior))"
    using b by (simp add: length_fence)
qed

lemma search_match:
  "search s i = Some (idx, tag, interior, li) \<Longrightarrow>
     i \<le> idx \<and> idx - i < length s \<and> match_here (drop (idx - i) s) = Some (tag, interior, li - idx)
     \<and> idx \<le> li"
proof (induction s arbitrary: i)
  case Nil
  then show ?case by simp
next
  case (Cons c s)
  show ?case
  proof (cases "match_here (c # s)")
    case None
    with Cons.prems have "search s (Suc i) = Some (idx, tag, interior, li)" by simp
    from Cons.IH [OF this] have ih: "Suc i \<le> idx" "idx - Suc i < length s"
      "match_here (drop (idx - Suc i) s) = Some (tag, interior, li - idx)" "idx \<le> li"
      by blast+
    from ih(1) have "idx - i = Suc (idx - Suc i)" by arith
    with ih show ?thesis by simp
  next
    case (Some r)
    obtain t b n where r: "r = (t, b, n)" by (cases r) auto
    with Cons.prems Some show ?thesis by auto
  qed
qed

lemma exec_match:
  assumes "exec s lastIndex = Some (idx, tag, interior, li)"
  shows "lastIndex \<le> idx \<and> idx < li \<and> li \<le> length s
         \<and> match_here (drop idx s) = Some (tag, interior, li - idx)"
proof -
  from assms have le: "lastIndex \<le> length s"
    and se: "search (drop lastIndex s) lastIndex = Some (idx, tag, interior, li)"
    by (auto simp: exec_def split: if_splits)
  from search_match [OF se] have "lastIndex \<le> idx"
    and "match_here (drop (idx - lastIndex) (drop lastIndex s)) = Some (tag, interior, li - idx)"
    by auto
  then have "match_here (drop idx s) = Some (tag, interior, li - idx)" by simp
  with exec_bound [OF assms] show ?thesis by simp
qed

lemma exec_take:
  assumes "exec s lastIndex = Some (idx, tag, interior, li)"
  shows "take li s = take lastIndex s @ substring s lastIndex idx @ render_segment (Fenced tag interior)"
proof -
  from exec_match [OF assms] have b: "lastIndex \<le> idx" "idx < li" "li \<le> length s"
    and m: "match_here (drop idx s) = Some (tag, interior, li - idx)" by auto
  note sh = match_here_render(1) [OF m] and n = match_here_render(2) [OF m]
  have "take li s = take idx s @ take (li - idx) (drop idx s)"
    using b by (metis le_add_diff_inverse less_imp_le_nat take_add)
  also have "take (li - idx) (drop idx s) = render_segment (Fenced tag interior)"
    using sh n by (metis append_eq_conv_conj)
  also have "take idx s = take lastIndex s @ substring s lastIndex idx"
  proof -
    have "substring s lastIndex idx = take (idx - lastIndex) (drop lastIndex s)"
      using b by (simp add: substring_def Let_def min_def max_def)
    then show ?thesis using b by (metis le_add_diff_inverse take_add)
  qed
  finally show ?thesis by simp
qed

lemma render_append: "render (xs @ ys) = render xs @ render ys"
  by (simp add: render_def)

lemma parse_loop_segments:
  assumes "parse_loop s lastIndex ps = (ps', li')"
    and "lastIndex \<le> length s"
    and "render segs = take lastIndex s"
    and "map part_of segs = ps"
  shows "\<exists>segs'. render segs' = take li' s \<and> map part_of segs' = ps' \<and> li' \<le> length s"
  using assms
proof (induction "length s - lastIndex" arbitrary: lastIndex ps segs rule: less_induct)
  case less
  show ?case
  proof (cases "exec s lastIndex")
    case None
    with less.prems(1) have "ps' = ps" "li' = lastIndex"
      by (simp_all add: parse_loop.simps [of s lastIndex ps])
    with less.prems show ?thesis by blast
  next
    case (Some r)
    obtain idx tag interior li where r: "r = (idx, tag, interior, li)"
      by (cases r) auto
    with Some have ex: "exec s lastIndex = Some (idx, tag, interior, li)" by simp
    from exec_match [OF ex] have b: "lastIndex \<le> idx" "idx < li" "li \<le> length s" by auto
    define new where "new = (if idx > lastIndex then [Plain (substring s lastIndex idx)] else [])
                              @ [Fenced tag interior]"
    have tag_low: "(toLowerCase tag = []) = (tag = [])" by (simp add: toLowerCase_def)
    have lp: "parse_loop s li (ps @ map part_of new) = (ps', li')"
      using less.prems(1) ex
      by (auto simp: parse_loop.simps [of s lastIndex ps] new_def tag_low split: if_splits)
    have "substring s lastIndex idx = []" if "\<not> idx > lastIndex"
      using that b by (simp add: substring_def Let_def)
    then have "render new = substring s lastIndex idx @ render_segment (Fenced tag interior)"
      by (simp add: new_def render_def)
    with exec_take [OF ex] less.prems(3)
    have rn: "render (segs @ new) = take li s" by (simp add: render_append)
    have mp: "map part_of (segs @ new) = ps @ map part_of new"
      using less.prems(4) by simp
    have "length s - li < length s - lastIndex" using b by linarith
    from less.hyps [OF this lp b(3) rn mp] show ?thesis .
  qed
qed

lemma parseResponse_segments:
  "\<exists>segs. segs \<noteq> [] \<and> render segs = s \<and> map part_of segs = parseResponse s"
proof -
  obtain ps li where pl: "parse_loop s 0 [] = (ps, li)" by (cases "parse_loop s 0 []") auto
  have "render [] = take 0 s" by (simp add: render_def)
  from parse_loop_segments [OF pl _ this]
  obtain segs where sg: "render segs = take li s" "map part_of segs = ps" "li \<le> length s"
    by auto
  show ?thesis
  proof (cases "li < length s")
    case True
    have "render (segs @ [Plain (drop li s)]) = s"
      using sg(1) by (simp add: render_append) (simp add: render_def)
    moreover have "map part_of (segs @ [Plain (drop li s)]) = parseResponse s"
      using pl sg True by (simp add: parseResponse_def substring_from_def)
    ultimately show ?thesis by blast
  next
    case False
    with sg have full: "render segs = s" by simp
    show ?thesis
    proof (cases "ps = []")
      case True
      with sg(2) have "segs = []" by simp
      with full have "s = []" by (simp add: render_def)
      have "render [Plain s] = s" by (simp add: render_def)
      moreover have "map part_of [Plain s] = parseResponse s"
        using pl True False by (simp add: parseResponse_def)
      ultimately show ?thesis by blast
    next
      case ne: False
      then have "parseResponse s = ps" using pl False by (simp add: parseResponse_def)
      moreover from ne sg(2) have "segs \<noteq> []" by auto
      ultimately show ?thesis using full sg(2) by auto
    qed
  qed
qed

lemma find_close_complete: "find_close (x @ fence @ y) \<noteq> None"
proof (induction x)
  case Nil
  then show ?case by (simp add: fence_def)
next
  case (Cons c x)
  then show ?case by auto
qed

lemma not_word_newline: "\<not> is_word newline"
  by (simp add: is_word_def newline_def)

lemma match_here_complete:
  assumes "list_all is_word tag" and "interior \<noteq> []"
  shows "match_here (render_segment (Fenced tag interior) @ post) \<noteq> None"
proof -
  obtain b rest where i: "interior = b # rest" using assms(2) by (cases interior) auto
  let ?s = "render_segment (Fenced tag interior) @ post"
  have d3: "drop 3 ?s = tag @ newline # b # rest @ fence @ post"
    by (simp add: i fence_def)
  have t3: "take 3 ?s = fence" by (simp add: fence_def)
  have tw: "takeWhile is_word (tag @ newline # b # rest @ fence @ post) = tag"
    using assms(1) not_word_newline by (simp add: list_all_iff takeWhile_append2 takeWhile_append1)
  have dw: "dropWhile is_word (tag @ newline # b # rest @ fence @ post)
              = newline # b # rest @ fence @ post"
    using assms(1) not_word_newline by (simp add: list_all_iff dropWhile_append2 dropWhile_append1)
  from find_close_complete [of rest post] obtain k where "find_close (rest @ fence @ post) = Some k"
    by auto
  then show ?thesis
    unfolding match_here_def t3 d3 tw dw by simp
qed

lemma search_complete: "match_here s \<noteq> None \<Longrightarrow> search (pre @ s) i \<noteq> None"
proof (induction pre arbitrary: i)
  case Nil
  then show ?case by (cases s) (auto simp: match_here_def fence_def)
next
  case (Cons c pre)
  then show ?case by (cases "match_here (c # pre @ s)") auto
qed

lemma exec_complete: "has_fenced_region s \<Longrightarrow> exec s 0 \<noteq> None"
proof -
  assume "has_fenced_region s"
  then obtain pre tag interior post where
    s: "s = pre @ render_segment (Fenced tag interior) @ post"
    and w: "list_all is_word tag" and i: "interior \<noteq> []"
    unfolding has_fenced_region_def by blast
  from search_complete [OF match_here_complete [OF w i, of post], of pre 0]
  show ?thesis by (simp add: exec_def s)
qed

lemma exec_sound: "exec s 0 \<noteq> None \<Longrightarrow> has_fenced_region s"
proof -
  assume "exec s 0 \<noteq> None"
  then obtain idx tag interior li where ex: "exec s 0 = Some (idx, tag, interior, li)"
    by auto
  from exec_match [OF ex] have m: "match_here (drop idx s) = Some (tag, interior, li - idx)"
    by simp
  from match_here_render(1) [OF m] have
    "s = take idx s @ render_segment (Fenced tag interior) @ drop (li - idx) (drop idx s)"
    by (metis append_take_drop_id)
  moreover from match_here_shape [OF m] have "list_all is_word tag" "interior \<noteq> []" by blast+
  ultimately show ?thesis unfolding has_fenced_region_def by blast
qed

lemma refence_part_of: "refence (map part_of segs) = render (map normal_segment segs)"
proof (induction segs)
  case Nil
  then show ?case by (simp add: refence_def render_def)
next
  case (Cons sg segs)
  have "refence_part (part_of sg) = render_segment (normal_segment sg)"
    by (cases sg) simp_all
  with Cons show ?case by (simp add: refence_def render_def)
qed

text \<open>
  Claim C1, as amended. For every input parseResponse returns a non-empty list of parts,
  and the input is a sequence of segments, one per part and in the same order: a Text
  part holds its plain stretch verbatim; a Code part comes from a fenced region (opening
  marker, tag, line feed, interior, closing marker), its content is the trimmed interior
  and its language is the lower-cased tag, or \<open>plaintext\<close> when the tag is empty. So the
  parts, wrapped again and concatenated, give the input with every interior trimmed and
  every tag lower-cased or, when empty, replaced by \<open>plaintext\<close>. An input without a
  fenced region gives a single Text part holding the whole input, also when the input is
  blank.
\<close>

theorem parseResponse_reconstructs:
  "parseResponse s \<noteq> []
   \<and> (\<exists>segs. render segs = s \<and> map part_of segs = parseResponse s
          \<and> refence (parseResponse s) = render (map normal_segment segs))
   \<and> (\<not> has_fenced_region s \<longrightarrow> parseResponse s = [TextPart s])"
proof -
  from parseResponse_segments [of s] obtain segs where
    sg: "segs \<noteq> []" "render segs = s" "map part_of segs = parseResponse s" by blast
  from sg(1,3) have "parseResponse s \<noteq> []" by auto
  moreover have "\<not> has_fenced_region s \<longrightarrow> parseResponse s = [TextPart s]"
    using exec_sound [of s] parseResponse_no_match [of s] by blast
  moreover have "refence (parseResponse s) = render (map normal_segment segs)"
    using refence_part_of [of segs] sg(3) by simp
  ultimately show ?thesis using sg by blast
qed

theorem parseResponse_reconstructs_witness:
  "\<not> has_fenced_region ''  '' \<and> parseResponse ''  '' = [TextPart ''  '']
   \<and> parseResponse ''  '' \<noteq> []"
proof -
  have "exec ''  '' 0 = None" by code_simp
  with exec_complete [of "''  ''"] have h: "\<not> has_fenced_region ''  ''" by blast
  with parseResponse_reconstructs [of "''  ''"] show ?thesis by blast
qed

lemma single_code_literal:
  assumes "map part_of_literal segs = [CodePart c l]"
  shows "\<exists>tag interior. segs = [Fenced tag interior] \<and> toLowerCase tag = l"
proof -
  from assms obtain sg where one: "segs = [sg]" and pl: "part_of_literal sg = CodePart c l"
    by auto
  from pl obtain tag interior where "sg = Fenced tag interior" "toLowerCase tag = l"
    by (cases sg) auto
  with one show ?thesis by blast
qed

lemma lower_plaintext_head:
  "toLowerCase tag = ''plaintext'' \<Longrightarrow> \<exists>c cs. tag = c # cs \<and> lower_char c = CHR ''p''"
  by (cases tag) (auto simp: toLowerCase_def)

lemma render_fenced_head:
  "render [Fenced (c # cs) interior] = ''```'' @ [newline] @ ''x```'' \<Longrightarrow> c = newline"
  by (simp add: render_def fence_def)

lemma lower_char_newline: "lower_char newline \<noteq> CHR ''p''"
  by (simp add: lower_char_def newline_def upper_chars_def lower_chars_def)

text \<open>
  The claim as it was stated takes the language for the lower-cased tag. The input
  \<^verbatim>\<open>```\nx```\<close> has an empty tag and nothing to trim; its part has the
  language \<open>plaintext\<close>, which no tag of this input lower-cases to, and the parts wrapped
  again are \<^verbatim>\<open>```plaintext\nx```\<close>, not the input.
\<close>

theorem parseResponse_literal_counterexample:
  "parseResponse (''```'' @ [newline] @ ''x```'') = [CodePart ''x'' ''plaintext'']
   \<and> refence (parseResponse (''```'' @ [newline] @ ''x```''))
       = ''```plaintext'' @ [newline] @ ''x```''
   \<and> \<not> (\<exists>segs. render segs = ''```'' @ [newline] @ ''x```''
               \<and> map part_of_literal segs = parseResponse (''```'' @ [newline] @ ''x```''))"
proof (intro conjI)
  show p: "parseResponse (''```'' @ [newline] @ ''x```'') = [CodePart ''x'' ''plaintext'']"
    by code_simp
  show "refence (parseResponse (''```'' @ [newline] @ ''x```''))
       = ''```plaintext'' @ [newline] @ ''x```''"
    by code_simp
  show "\<not> (\<exists>segs. render segs = ''```'' @ [newline] @ ''x```''
               \<and> map part_of_literal segs = parseResponse (''```'' @ [newline] @ ''x```''))"
  proof (rule notI, elim exE conjE)
    fix segs
    assume r: "render segs = ''```'' @ [newline] @ ''x```''"
      and m: "map part_of_literal segs = parseResponse (''```'' @ [newline] @ ''x```'')"
    have m': "map part_of_literal segs = [CodePart ''x'' ''plaintext'']"
      by (rule trans [OF m p])
    from single_code_literal [OF m'] obtain tag interior where
      sg: "segs = [Fenced tag interior]" and low: "toLowerCase tag = ''plaintext''"
      by (elim exE conjE)
    from lower_plaintext_head [OF low] obtain c cs where
      tag: "tag = c # cs" and lc: "lower_char c = CHR ''p''"
      by (elim exE conjE)
    have "render [Fenced (c # cs) interior] = ''```'' @ [newline] @ ''x```''"
      using r unfolding sg tag .
    then have cn: "c = newline" by (rule render_fenced_head)
    from lc have "lower_char newline = CHR ''p''" unfolding cn .
    with lower_char_newline show False by (rule notE)
  qed
qed

subsection \<open>A fence with an empty interior\<close>

lemma find_close_no_fence: "\<not> includes_str s fence \<Longrightarrow> find_close s = None"
  by (induction s) (auto simp: length_fence)

lemma match_here_no_fence: "take 3 s \<noteq> fence \<Longrightarrow> match_here s = None"
  by (simp add: match_here_def)

lemma includes_str_mid: "includes_str (x @ fence @ y) fence"
  by (induction x) (auto simp: fence_def)

lemma word_not_tick: "is_word c \<Longrightarrow> c \<noteq> CHR 0x60"
  by (auto simp: is_word_def)

lemma search_skip:
  "\<forall>c \<in> set xs. c \<noteq> CHR 0x60 \<Longrightarrow> search (xs @ s) i = search s (i + length xs)"
proof (induction xs arbitrary: i)
  case Nil
  then show ?case by simp
next
  case (Cons c xs)
  then have "c \<noteq> CHR 0x60" by simp
  then have "take 3 (c # xs @ s) \<noteq> fence" by (auto simp: fence_def)
  then have "match_here (c # xs @ s) = None" by (rule match_here_no_fence)
  with Cons show ?case by simp
qed

lemma search_prefix:
  "\<not> includes_str (pre @ ''``'') fence \<Longrightarrow>
     search (pre @ fence @ z) i = search (fence @ z) (i + length pre)"
proof (induction pre arbitrary: i)
  case Nil
  then show ?case by simp
next
  case (Cons c pre)
  from Cons.prems have nt: "take 3 (c # pre @ ''``'') \<noteq> fence"
    and rest: "\<not> includes_str (pre @ ''``'') fence"
    by (simp_all add: length_fence)
  have "take 3 (c # pre @ fence @ z) = take 3 (c # pre @ ''``'')"
  proof (cases pre)
    case Nil
    then show ?thesis by (simp add: fence_def)
  next
    case (Cons a l)
    then show ?thesis by (cases l) (simp_all add: fence_def)
  qed
  with nt have "match_here (c # pre @ fence @ z) = None"
    by (simp add: match_here_no_fence)
  with Cons.IH [OF rest] show ?case by simp
qed

lemma match_here_empty_interior:
  assumes "list_all is_word tag" and "\<not> includes_str (''``'' @ post) fence"
  shows "match_here (fence @ tag @ [newline] @ fence @ post) = None"
proof -
  let ?s = "fence @ tag @ [newline] @ fence @ post"
  have t3: "take 3 ?s = fence" by (simp add: fence_def)
  have d3: "drop 3 ?s = tag @ newline # CHR 0x60 # ''``'' @ post" by (simp add: fence_def)
  have dw: "dropWhile is_word (tag @ newline # CHR 0x60 # ''``'' @ post)
              = newline # CHR 0x60 # ''``'' @ post"
    using assms(1) not_word_newline by (simp add: list_all_iff dropWhile_append2 dropWhile_append1)
  from assms(2) have "find_close (''``'' @ post) = None" by (rule find_close_no_fence)
  then show ?thesis
    unfolding match_here_def t3 d3 dw by simp
qed

lemma search_closing_only:
  assumes "\<not> includes_str (''``'' @ post) fence"
  shows "search (fence @ post) i = None"
proof -
  have "match_here (fence @ post) = None"
  proof (cases "match_here (fence @ post)")
    case None
    then show ?thesis .
  next
    case (Some r)
    obtain tag interior n where r: "r = (tag, interior, n)" by (cases r) auto
    from match_here_shape [of "fence @ post" tag interior n] Some r
    have "fence @ post = fence @ tag @ [newline] @ interior @ fence @ drop n (fence @ post)"
      by blast
    then have "post = (tag @ [newline] @ interior) @ fence @ drop n (fence @ post)" by simp
    then have "includes_str post fence" using includes_str_mid by metis
    then have "includes_str (drop 2 (''``'' @ post)) fence" by simp
    then have "includes_str (''``'' @ post) fence"
      by (rule includes_str_drop) (simp add: fence_def)
    with assms show ?thesis by simp
  qed
  moreover have "search (''``'' @ post) (Suc i) = None" using assms by (rule search_no_fence)
  ultimately show ?thesis by (simp add: fence_def)
qed

lemma search_empty_fence:
  assumes "list_all is_word tag"
    and "\<not> includes_str (pre @ ''``'') fence"
    and "\<not> includes_str (''``'' @ post) fence"
  shows "search (pre @ fence @ tag @ [newline] @ fence @ post) i = None"
proof -
  let ?z = "tag @ [newline] @ fence @ post"
  have nt: "\<forall>c \<in> set (tag @ [newline]). c \<noteq> CHR 0x60"
    using assms(1) word_not_tick by (auto simp: list_all_iff newline_def)
  from nt have hd: "take 3 (''``'' @ ?z) \<noteq> fence" "take 3 (''`'' @ ?z) \<noteq> fence"
    by (cases tag; auto simp: fence_def)+
  have "search (pre @ fence @ ?z) i = search (fence @ ?z) (i + length pre)"
    using assms(2) by (rule search_prefix)
  also have "\<dots> = search (''``'' @ ?z) (Suc (i + length pre))"
    using match_here_empty_interior [OF assms(1,3)] by (simp add: fence_def)
  also have "\<dots> = search (''`'' @ ?z) (Suc (Suc (i + length pre)))"
    using match_here_no_fence [OF hd(1)] by simp
  also have "\<dots> = search ?z (Suc (Suc (Suc (i + length pre))))"
    using match_here_no_fence [OF hd(2)] by simp
  also have "\<dots> = search (fence @ post) (Suc (Suc (Suc (i + length pre))) + length (tag @ [newline]))"
    using search_skip [OF nt, of "fence @ post"] by simp
  also have "\<dots> = None" using assms(3) by (rule search_closing_only)
  finally show ?thesis by simp
qed

lemma parseResponse_lone_empty_fence:
  assumes "list_all is_word tag"
    and "\<not> includes_str (pre @ ''``'') fence"
    and "\<not> includes_str (''``'' @ post) fence"
  shows "parseResponse (pre @ fence @ tag @ [newline] @ fence @ post)
           = [TextPart (pre @ fence @ tag @ [newline] @ fence @ post)]"
proof -
  have "exec (pre @ fence @ tag @ [newline] @ fence @ post) 0 = None"
    using search_empty_fence [OF assms] by (simp add: exec_def)
  then show ?thesis by (rule parseResponse_no_match)
qed








lemma parseResponse_example_after_region:
  "parseResponse ((''```js'' @ [newline] @ ''x``` see '') @ fence @ ''js'' @ [newline] @ fence @ '' end'')
     = [CodePart ''x'' ''js'', TextPart ('' see ```js'' @ [newline] @ ''``` end'')]"
  by code_simp



section \<open>Properties of getApiErrorMessage\<close>

lemma includes_str_iff: "includes_str s sub \<longleftrightarrow> (\<exists>pre post. s = pre @ sub @ post)"
proof (induction s)
  case Nil
  then show ?case by auto
next
  case (Cons c s)
  show ?case
  proof
    assume "includes_str (c # s) sub"
    then consider "take (length sub) (c # s) = sub" | "includes_str s sub" by auto
    then show "\<exists>pre post. c # s = pre @ sub @ post"
    proof cases
      case 1
      then have "c # s = [] @ sub @ drop (length sub) (c # s)"
        by (metis append_Nil append_take_drop_id)
      then show ?thesis by blast
    next
      case 2
      with Cons.IH obtain pre post where "s = pre @ sub @ post" by blast
      then have "c # s = (c # pre) @ sub @ post" by simp
      then show ?thesis by blast
    qed
  next
    assume "\<exists>pre post. c # s = pre @ sub @ post"
    then obtain pre post where e: "c # s = pre @ sub @ post" by blast
    show "includes_str (c # s) sub"
    proof (cases pre)
      case Nil
      with e have "take (length sub) (c # s) = sub" by simp
      then show ?thesis by simp
    next
      case (Cons a pre')
      with e have "s = pre' @ sub @ post" by simp
      with Cons.IH have "includes_str s sub" by blast
      then show ?thesis by simp
    qed
  qed
qed

lemma toLowerCase_append: "toLowerCase (a @ b) = toLowerCase a @ toLowerCase b"
  by (simp add: toLowerCase_def)

lemma mentions_iff: "mentions s phrase \<longleftrightarrow> includes_str (toLowerCase s) phrase"
proof
  assume "mentions s phrase"
  then obtain pre mid post where "s = pre @ mid @ post" "toLowerCase mid = phrase"
    unfolding mentions_def by blast
  then have "toLowerCase s = toLowerCase pre @ phrase @ toLowerCase post"
    by (simp add: toLowerCase_append)
  then show "includes_str (toLowerCase s) phrase" unfolding includes_str_iff by blast
next
  assume "includes_str (toLowerCase s) phrase"
  then obtain a b where ab: "toLowerCase s = a @ phrase @ b" unfolding includes_str_iff by blast
  define pre where "pre = take (length a) s"
  define mid where "mid = take (length phrase) (drop (length a) s)"
  define post where "post = drop (length a + length phrase) s"
  have s: "s = pre @ mid @ post"
    unfolding pre_def mid_def post_def
    by (metis append_take_drop_id drop_drop add.commute)
  have "toLowerCase mid = take (length phrase) (drop (length a) (toLowerCase s))"
    unfolding mid_def toLowerCase_def by (simp add: take_map drop_map)
  also have "\<dots> = phrase" unfolding ab by simp
  finally show "mentions s phrase" using s unfolding mentions_def by blast
qed

text \<open>
  Claim C3, as amended. The classifier is a fixed priority order of case-insensitive
  substring tests on the failure's message text (\<^verbatim>\<open>error.message\<close>, or
  \<^verbatim>\<open>String(error)\<close> when there is no message). Offline, the result is the offline
  text whatever the message. Online: \<open>api key not valid\<close> or \<open>permission denied\<close> gives the
  API-key text; else \<open>quota\<close> gives the quota text; else \<open>500\<close>, \<open>503\<close> or
  \<open>server error\<close> gives the service text; else \<open>fetch\<close> or \<open>network\<close> gives the network
  text; else the result is the fixed prefix followed by \<^verbatim>\<open>error.message\<close>, or by a
  fixed placeholder when there is no message. In particular the message
  \<open>API key not valid\<close> gives the API-key text online.
\<close>

theorem getApiErrorMessage_priority:
  "getApiErrorMessage False error = offline_text
   \<and> getApiErrorMessage True error =
       (let s = message_or error (as_string error) in
        if mentions s ''api key not valid'' \<or> mentions s ''permission denied''
        then api_key_text
        else if mentions s ''quota'' then quota_text
        else if mentions s ''500'' \<or> mentions s ''503'' \<or> mentions s ''server error''
        then service_text
        else if mentions s ''fetch'' \<or> mentions s ''network'' then network_text
        else unexpected_text (message_or error ''No additional information available.''))
   \<and> getApiErrorMessage True (new_Error ''API key not valid'') = api_key_text"
proof (intro conjI)
  show "getApiErrorMessage False error = offline_text"
    by (simp add: getApiErrorMessage_def)
  show "getApiErrorMessage True error =
       (let s = message_or error (as_string error) in
        if mentions s ''api key not valid'' \<or> mentions s ''permission denied''
        then api_key_text
        else if mentions s ''quota'' then quota_text
        else if mentions s ''500'' \<or> mentions s ''503'' \<or> mentions s ''server error''
        then service_text
        else if mentions s ''fetch'' \<or> mentions s ''network'' then network_text
        else unexpected_text (message_or error ''No additional information available.''))"
    unfolding getApiErrorMessage_def mentions_iff Let_def by simp
  have "includes_str (toLowerCase ''API key not valid'') ''api key not valid''"
    by code_simp
  then show "getApiErrorMessage True (new_Error ''API key not valid'') = api_key_text"
    by (simp add: getApiErrorMessage_def new_Error_def message_or_def)
qed

text \<open>
  The server-error test names the two codes 500 and 503, not every 5xx status: a
  \<open>502 Bad Gateway\<close> failure is classified as unexpected.
\<close>

theorem getApiErrorMessage_502_counterexample:
  "getApiErrorMessage True (new_Error ''502 Bad Gateway'') = unexpected_text ''502 Bad Gateway''
   \<and> getApiErrorMessage True (new_Error ''502 Bad Gateway'') \<noteq> service_text"
  by code_simp

text \<open>The six results are pairwise different texts, so the kind can be read off the result.\<close>

lemma error_texts_distinct:
  "distinct [offline_text, api_key_text, quota_text, service_text, network_text,
             unexpected_text details]"
  by (simp add: offline_text_def api_key_text_def quota_text_def service_text_def
      network_text_def unexpected_text_def)

text \<open>A thrown value without a message is classified by its string form and reported
  with the placeholder.\<close>

lemma getApiErrorMessage_no_message:
  "getApiErrorMessage True \<lparr>message = None, as_string = ''boom''\<rparr>
     = unexpected_text ''No additional information available.''"
  by code_simp

section \<open>Properties of the handlers\<close>

lemma tts_effect_unchanged [simp]:
  "messages (tts_effect e st) = messages st"
  "input (tts_effect e st) = input st"
  "isLoading (tts_effect e st) = isLoading st"
  "chat (tts_effect e st) = chat st"
  "ai (tts_effect e st) = ai st"
  "isTtsEnabled (tts_effect e st) = isTtsEnabled st"
  "isListening (tts_effect e st) = isListening st"
  "recognition (tts_effect e st) = recognition st"
  by (simp_all add: tts_effect_def Let_def)

lemma append_message_fields [simp]:
  "messages (append_message e m st) = messages st @ [m]"
  "input (append_message e m st) = input st"
  "isLoading (append_message e m st) = isLoading st"
  "chat (append_message e m st) = chat st"
  "ai (append_message e m st) = ai st"
  "isTtsEnabled (append_message e m st) = isTtsEnabled st"
  by (simp_all add: append_message_def)

lemma append_message_speech:
  "speech (append_message e m st) =
     speech st @ (if isTtsEnabled st \<and> isTtsSupported e \<and> role m = Ai \<and> textToSpeak m \<noteq> []
                  then [Speak (textToSpeak m)] else [])"
  by (simp add: append_message_def tts_effect_def Let_def)

text \<open>
  Claim C6. In every state in which a request is in flight (\<^verbatim>\<open>isLoading\<close>), or the
  draft input is blank, or there is no session handle (\<^verbatim>\<open>chat\<close> is \<^verbatim>\<open>null\<close>), a
  submit changes nothing: not the conversation log, not the phase, not the draft input,
  nor any other part of the state.
\<close>

theorem handleSubmit_rejected:
  "isLoading st \<or> trim (input st) = [] \<or> \<not> chat st \<Longrightarrow> handleSubmit e st = st"
  by (auto simp: handleSubmit_def)

theorem handleSubmit_rejected_witness:
  "isLoading (initial_state\<lparr>input := ''again'', isLoading := True, chat := True\<rparr>)
   \<and> handleSubmit
        \<lparr>onLine = True, isTtsSupported = True, isSpeechSupported = True,
         JSON_parse = (\<lambda>s. None), sendMessage = (\<lambda>s. Inr (Some ''ok'')),
         generateImages = (\<lambda>s. Inr None)\<rparr>
        (initial_state\<lparr>input := ''again'', isLoading := True, chat := True\<rparr>)
       = initial_state\<lparr>input := ''again'', isLoading := True, chat := True\<rparr>"
proof -
  have h: "isLoading (initial_state\<lparr>input := ''again'', isLoading := True, chat := True\<rparr>)"
    by simp
  then have "isLoading (initial_state\<lparr>input := ''again'', isLoading := True, chat := True\<rparr>)
      \<or> trim (input (initial_state\<lparr>input := ''again'', isLoading := True, chat := True\<rparr>)) = []
      \<or> \<not> chat (initial_state\<lparr>input := ''again'', isLoading := True, chat := True\<rparr>)"
    by (rule disjI1)
  from h handleSubmit_rejected [OF this] show ?thesis by (rule conjI)
qed

subsection \<open>Routing of the reply\<close>

lemma image_directive_Some_iff:
  "image_directive parsed = Some p \<longleftrightarrow>
     (\<exists>members. parsed = Some (JObject members)
        \<and> map_of (rev members) ''image_prompt'' = Some (JString p) \<and> p \<noteq> [])"
proof
  assume a: "image_directive parsed = Some p"
  then obtain j where j: "parsed = Some j" by (cases parsed) (auto simp: image_directive_def)
  with a obtain v where v: "read_image_prompt j = Value v"
    by (cases "read_image_prompt j") (auto simp: image_directive_def)
  with a j have s: "v = JString p" "p \<noteq> []"
    by (cases v; auto simp: image_directive_def split: if_splits)+
  from v obtain members where "j = JObject members"
    "map_of (rev members) ''image_prompt'' = Some v"
    by (cases j) (auto split: option.splits)
  with j s show "\<exists>members. parsed = Some (JObject members)
        \<and> map_of (rev members) ''image_prompt'' = Some (JString p) \<and> p \<noteq> []"
    by blast
next
  assume "\<exists>members. parsed = Some (JObject members)
        \<and> map_of (rev members) ''image_prompt'' = Some (JString p) \<and> p \<noteq> []"
  then show "image_directive parsed = Some p"
    by (auto simp: image_directive_def)
qed

text \<open>
  Claim C2, as amended. The reply is routed as an image directive with prompt \<open>p\<close> if and
  only if the whole trimmed reply parses as a JSON object with a member \<open>image_prompt\<close>
  whose value is the string \<open>p\<close> and \<open>p\<close> is not empty. A parse failure, the value
  \<^verbatim>\<open>null\<close> and every other parsed value are no directive, and nothing is thrown. A
  directive goes to handleImageGeneration alone; every other reply goes to parseResponse
  and its parts are appended as one Assistant Message.
\<close>

theorem reply_routing:
  "(image_directive parsed = Some p \<longleftrightarrow>
      (\<exists>members. parsed = Some (JObject members)
         \<and> map_of (rev members) ''image_prompt'' = Some (JString p) \<and> p \<noteq> []))
   \<and> image_directive None = None
   \<and> image_directive (Some JNull) = None
   \<and> (image_directive (JSON_parse e (trim t)) = Some p \<longrightarrow>
        on_reply e (Inr (Some t)) st = handleImageGeneration e p st)
   \<and> (image_directive (JSON_parse e (trim t)) = None \<longrightarrow>
        on_reply e (Inr (Some t)) st
          = append_message e (ai_message (parseResponse (trim t))) st)"
proof (intro conjI)
  show "image_directive parsed = Some p \<longleftrightarrow>
      (\<exists>members. parsed = Some (JObject members)
         \<and> map_of (rev members) ''image_prompt'' = Some (JString p) \<and> p \<noteq> [])"
    by (rule image_directive_Some_iff)
  show "image_directive None = None" by (simp add: image_directive_def)
  show "image_directive (Some JNull) = None" by (simp add: image_directive_def)
  show "image_directive (JSON_parse e (trim t)) = Some p \<longrightarrow>
        on_reply e (Inr (Some t)) st = handleImageGeneration e p st"
    by (simp add: on_reply_def)
  show "image_directive (JSON_parse e (trim t)) = None \<longrightarrow>
        on_reply e (Inr (Some t)) st
          = append_message e (ai_message (parseResponse (trim t))) st"
    by (simp add: on_reply_def)
qed

text \<open>
  A run of the theorem. The parser of this environment is \<^verbatim>\<open>JSON.parse\<close> on the two
  replies of the examples: the directive alone parses to an object, the directive inside
  prose does not parse.
\<close>

theorem reply_routing_witness:
  "image_directive
     (JSON_parse
        \<lparr>onLine = True, isTtsSupported = True, isSpeechSupported = True,
         JSON_parse = (\<lambda>s. if s = ''{\"image_prompt\": \"a red fox\"}''
                             then Some (JObject [(''image_prompt'', JString ''a red fox'')])
                             else None),
         sendMessage = (\<lambda>s. Inr None), generateImages = (\<lambda>s. Inr None)\<rparr>
        (trim '' {\"image_prompt\": \"a red fox\"} '')) = Some ''a red fox''
   \<and> on_reply
        \<lparr>onLine = True, isTtsSupported = True, isSpeechSupported = True,
         JSON_parse = (\<lambda>s. if s = ''{\"image_prompt\": \"a red fox\"}''
                             then Some (JObject [(''image_prompt'', JString ''a red fox'')])
                             else None),
         sendMessage = (\<lambda>s. Inr None), generateImages = (\<lambda>s. Inr None)\<rparr>
        (Inr (Some '' {\"image_prompt\": \"a red fox\"} '')) initial_state
       = handleImageGeneration
        \<lparr>onLine = True, isTtsSupported = True, isSpeechSupported = True,
         JSON_parse = (\<lambda>s. if s = ''{\"image_prompt\": \"a red fox\"}''
                             then Some (JObject [(''image_prompt'', JString ''a red fox'')])
                             else None),
         sendMessage = (\<lambda>s. Inr None), generateImages = (\<lambda>s. Inr None)\<rparr>
        ''a red fox'' initial_state
   \<and> image_directive
     (JSON_parse
        \<lparr>onLine = True, isTtsSupported = True, isSpeechSupported = True,
         JSON_parse = (\<lambda>s. if s = ''{\"image_prompt\": \"a red fox\"}''
                             then Some (JObject [(''image_prompt'', JString ''a red fox'')])
                             else None),
         sendMessage = (\<lambda>s. Inr None), generateImages = (\<lambda>s. Inr None)\<rparr>
        (trim ''here is some json: {\"image_prompt\": \"x\"}'')) = None
   \<and> on_reply
        \<lparr>onLine = True, isTtsSupported = True, isSpeechSupported = True,
         JSON_parse = (\<lambda>s. if s = ''{\"image_prompt\": \"a red fox\"}''
                             then Some (JObject [(''image_prompt'', JString ''a red fox'')])
                             else None),
         sendMessage = (\<lambda>s. Inr None), generateImages = (\<lambda>s. Inr None)\<rparr>
        (Inr (Some ''here is some json: {\"image_prompt\": \"x\"}'')) initial_state
       = append_message
        \<lparr>onLine = True, isTtsSupported = True, isSpeechSupported = True,
         JSON_parse = (\<lambda>s. if s = ''{\"image_prompt\": \"a red fox\"}''
                             then Some (JObject [(''image_prompt'', JString ''a red fox'')])
                             else None),
         sendMessage = (\<lambda>s. Inr None), generateImages = (\<lambda>s. Inr None)\<rparr>
        (ai_message (parseResponse (trim ''here is some json: {\"image_prompt\": \"x\"}'')))
        initial_state"
proof -
  let ?e = "\<lparr>onLine = True, isTtsSupported = True, isSpeechSupported = True,
         JSON_parse = (\<lambda>s. if s = ''{\"image_prompt\": \"a red fox\"}''
                             then Some (JObject [(''image_prompt'', JString ''a red fox'')])
                             else None),
         sendMessage = (\<lambda>s. Inr None), generateImages = (\<lambda>s. Inr None)\<rparr>"
  have t1: "trim '' {\"image_prompt\": \"a red fox\"} '' = ''{\"image_prompt\": \"a red fox\"}''"
    by code_simp
  have t2: "trim ''here is some json: {\"image_prompt\": \"x\"}''
              = ''here is some json: {\"image_prompt\": \"x\"}''"
    by code_simp
  have a: "image_directive (JSON_parse ?e (trim '' {\"image_prompt\": \"a red fox\"} ''))
             = Some ''a red fox''"
    unfolding t1 by (simp add: image_directive_def)
  have b: "image_directive
             (JSON_parse ?e (trim ''here is some json: {\"image_prompt\": \"x\"}'')) = None"
    unfolding t2 by (simp add: image_directive_def)
  have c: "on_reply ?e (Inr (Some '' {\"image_prompt\": \"a red fox\"} '')) initial_state
             = handleImageGeneration ?e ''a red fox'' initial_state"
    by (rule reply_routing [where e = "?e" and t = "'' {\"image_prompt\": \"a red fox\"} ''"
          and p = "''a red fox''" and st = initial_state,
          THEN conjunct2, THEN conjunct2, THEN conjunct2, THEN conjunct1, THEN mp, OF a])
  have d: "on_reply ?e (Inr (Some ''here is some json: {\"image_prompt\": \"x\"}'')) initial_state
             = append_message ?e
                 (ai_message (parseResponse (trim ''here is some json: {\"image_prompt\": \"x\"}'')))
                 initial_state"
    by (rule reply_routing [where e = "?e"
          and t = "''here is some json: {\"image_prompt\": \"x\"}''" and st = initial_state,
          THEN conjunct2, THEN conjunct2, THEN conjunct2, THEN conjunct2, THEN mp, OF b])
  from a c b d show ?thesis by (intro conjI)
qed

text \<open>
  The claim as it was stated counts every string value. The reply
  \<^verbatim>\<open>{"image_prompt": ""}\<close> parses to an object whose member \<open>image_prompt\<close> is the
  empty string; the test \<^verbatim>\<open>potentialJson.image_prompt && ...\<close> is false for it, so the
  reply is no directive and goes to parseResponse.
\<close>

theorem empty_prompt_counterexample:
  "image_directive (Some (JObject [(''image_prompt'', JString '''')])) = None"
  by (simp add: image_directive_def)

subsection \<open>Image messages\<close>

lemma part_of_no_image: "\<not> is_image (part_of sg)"
  by (cases sg) simp_all

lemma parseResponse_no_image: "list_all (\<lambda>p. \<not> is_image p) (parseResponse s)"
proof -
  from parseResponse_segments [of s] obtain segs where "map part_of segs = parseResponse s"
    by blast
  then have "parseResponse s = map part_of segs" by simp
  then show ?thesis by (simp add: list_all_iff part_of_no_image)
qed

lemma image_exclusive_text: "image_exclusive \<lparr>role = r, parts = [TextPart c]\<rparr>"
  by (simp add: image_exclusive_def)

lemma image_exclusive_image: "image_exclusive \<lparr>role = r, parts = [ImagePart u p]\<rparr>"
  by (simp add: image_exclusive_def)

lemma image_exclusive_parsed: "image_exclusive \<lparr>role = r, parts = parseResponse s\<rparr>"
proof -
  have "list_all (\<lambda>p. \<not> is_image p) (parseResponse s)" by (rule parseResponse_no_image)
  then show ?thesis
    unfolding image_exclusive_def
    by (auto split: list.splits MessagePart.splits)
qed

lemma appends_one:
  "messages st' = messages st @ [m] \<Longrightarrow> image_exclusive m \<Longrightarrow>
     \<exists>new. messages st' = messages st @ new \<and> list_all image_exclusive new"
  by (rule exI [of _ "[m]"]) simp

lemma appends_none:
  "messages st' = messages st \<Longrightarrow>
     \<exists>new. messages st' = messages st @ new \<and> list_all image_exclusive new"
  by (rule exI [of _ "[]"]) simp

lemma handleImageGeneration_appends:
  "\<exists>new. messages (handleImageGeneration e p st) = messages st @ new
         \<and> list_all image_exclusive new"
proof (cases "ai st")
  case False
  then have "messages (handleImageGeneration e p st) = messages st"
    by (simp add: handleImageGeneration_def)
  then show ?thesis by (rule appends_none)
next
  case True
  have "\<exists>m. messages (handleImageGeneration e p st) = messages st @ [m] \<and> image_exclusive m"
  proof (cases "generateImages e p")
    case (Inl error)
    with True show ?thesis
      by (simp add: handleImageGeneration_def image_failed_def ai_message_def image_exclusive_text)
  next
    case (Inr base64ImageBytes)
    show ?thesis
    proof (cases base64ImageBytes)
      case None
      with True Inr show ?thesis
        by (simp add: handleImageGeneration_def image_failed_def ai_message_def
            image_exclusive_text)
    next
      case (Some bytes)
      with True Inr show ?thesis
        by (cases "bytes = []")
           (simp_all add: handleImageGeneration_def image_failed_def ai_message_def
              image_exclusive_text image_exclusive_image)
    qed
  qed
  then obtain m where "messages (handleImageGeneration e p st) = messages st @ [m]"
    and "image_exclusive m" by blast
  then show ?thesis by (rule appends_one)
qed

lemma on_reply_appends:
  "\<exists>new. messages (on_reply e outcome st) = messages st @ new \<and> list_all image_exclusive new"
proof (cases outcome)
  case (Inl error)
  then have "messages (on_reply e outcome st) = messages st @ [submit_failed e error]"
    by (simp add: on_reply_def)
  moreover have "image_exclusive (submit_failed e error)"
    by (simp add: submit_failed_def ai_message_def image_exclusive_text)
  ultimately show ?thesis by (rule appends_one)
next
  case (Inr response_text)
  define responseText where "responseText = trim (case response_text of None \<Rightarrow> [] | Some t \<Rightarrow> t)"
  show ?thesis
  proof (cases "image_directive (JSON_parse e responseText)")
    case None
    with Inr have "messages (on_reply e outcome st)
        = messages st @ [ai_message (parseResponse responseText)]"
      by (simp add: on_reply_def responseText_def)
    moreover have "image_exclusive (ai_message (parseResponse responseText))"
      by (simp add: ai_message_def image_exclusive_parsed)
    ultimately show ?thesis by (rule appends_one)
  next
    case (Some p)
    with Inr have "on_reply e outcome st = handleImageGeneration e p st"
      by (simp add: on_reply_def responseText_def)
    with handleImageGeneration_appends [of e p st] show ?thesis by simp
  qed
qed

lemma handleSubmit_appends:
  "\<exists>new. messages (handleSubmit e st) = messages st @ new \<and> list_all image_exclusive new"
proof (cases "trim (input st) = [] \<or> isLoading st \<or> \<not> chat st")
  case True
  then have "messages (handleSubmit e st) = messages st"
    by (auto simp: handleSubmit_def)
  then show ?thesis by (rule appends_none)
next
  case False
  define st1 where "st1 = begin_submit e st"
  have m1: "messages st1 = messages st @ [user_message (input st)]"
    by (simp add: st1_def begin_submit_def Let_def)
  from on_reply_appends [of e "sendMessage e (input st)" st1] obtain new where
    n: "messages (on_reply e (sendMessage e (input st)) st1) = messages st1 @ new"
    "list_all image_exclusive new" by blast
  from False have "messages (handleSubmit e st)
      = messages (on_reply e (sendMessage e (input st)) st1)"
    by (simp add: handleSubmit_def Let_def st1_def)
  with n m1 have "messages (handleSubmit e st) = messages st @ (user_message (input st) # new)"
    by simp
  moreover have "list_all image_exclusive (user_message (input st) # new)"
    using n(2) by (simp add: user_message_def image_exclusive_text)
  ultimately show ?thesis by blast
qed

text \<open>
  Claim C9. parseResponse never produces an Image part; and the messages that a submit
  appends to the conversation log are such that a message with an Image part has exactly
  that one part and no part of another kind.
\<close>

theorem image_messages_exclusive:
  "list_all (\<lambda>p. \<not> is_image p) (parseResponse s)
   \<and> (\<exists>new. messages (handleSubmit e st) = messages st @ new
          \<and> list_all image_exclusive new)"
proof
  show "list_all (\<lambda>p. \<not> is_image p) (parseResponse s)" by (rule parseResponse_no_image)
next
  show "\<exists>new. messages (handleSubmit e st) = messages st @ new \<and> list_all image_exclusive new"
    by (rule handleSubmit_appends)
qed

subsection \<open>Speech output\<close>

lemma speakable_texts: "map content (filter speakable ps) = non_blank_texts ps"
  by (induction ps rule: non_blank_texts.induct) simp_all

lemma textToSpeak_texts: "textToSpeak m = join '' '' (non_blank_texts (parts m))"
  by (simp add: textToSpeak_def speakable_texts)

lemma begin_submit_fields:
  "messages (begin_submit e st) = messages st @ [user_message (input st)]"
  "isTtsEnabled (begin_submit e st) = isTtsEnabled st"
  "ai (begin_submit e st) = ai st"
  by (simp_all add: begin_submit_def Let_def)

lemma begin_submit_speech:
  "isTtsSupported e \<Longrightarrow> speech (begin_submit e st) = speech st @ [Cancel]"
  by (simp add: begin_submit_def Let_def append_message_speech user_message_def)

lemma append_message_utterance:
  "role m = Ai \<Longrightarrow>
     speech (append_message e m st) = speech st @ utterance e (append_message e m st)"
  by (simp add: append_message_speech utterance_def)

lemma handleImageGeneration_speech:
  assumes "messages st \<noteq> []" and "role (last (messages st)) = User"
  shows "speech (handleImageGeneration e p st)
           = speech st @ utterance e (handleImageGeneration e p st)"
proof (cases "ai st")
  case False
  with assms show ?thesis by (simp add: handleImageGeneration_def utterance_def)
next
  case True
  show ?thesis
  proof (cases "generateImages e p")
    case (Inl error)
    with True show ?thesis
      by (simp add: handleImageGeneration_def append_message_utterance image_failed_def
          ai_message_def)
  next
    case (Inr base64ImageBytes)
    show ?thesis
    proof (cases base64ImageBytes)
      case None
      with True Inr show ?thesis
        by (simp add: handleImageGeneration_def append_message_utterance image_failed_def
            ai_message_def)
    next
      case (Some bytes)
      with True Inr show ?thesis
        by (cases "bytes = []")
           (simp_all add: handleImageGeneration_def append_message_utterance image_failed_def
              ai_message_def)
    qed
  qed
qed

lemma on_reply_speech:
  assumes "messages st \<noteq> []" and "role (last (messages st)) = User"
  shows "speech (on_reply e outcome st) = speech st @ utterance e (on_reply e outcome st)"
proof (cases outcome)
  case (Inl error)
  then show ?thesis
    by (simp add: on_reply_def append_message_utterance submit_failed_def ai_message_def)
next
  case (Inr response_text)
  define responseText where "responseText = trim (case response_text of None \<Rightarrow> [] | Some t \<Rightarrow> t)"
  show ?thesis
  proof (cases "image_directive (JSON_parse e responseText)")
    case None
    with Inr have "on_reply e outcome st
        = append_message e (ai_message (parseResponse responseText)) st"
      by (simp add: on_reply_def responseText_def)
    then show ?thesis by (simp add: append_message_utterance ai_message_def)
  next
    case (Some p)
    with Inr have "on_reply e outcome st = handleImageGeneration e p st"
      by (simp add: on_reply_def responseText_def)
    with handleImageGeneration_speech [OF assms, of e p] show ?thesis by simp
  qed
qed

lemma utterance_isLoading [simp]: "utterance e (st\<lparr>isLoading := b\<rparr>) = utterance e st"
  by (simp add: utterance_def)

text \<open>
  Claim C4, as amended. A submit that passes the guard cancels the utterance in progress
  before the request is sent. When the turn then appends an Assistant Message and speech
  output is enabled, the contents of the Text parts of that message that are not blank
  (blank Text parts, Code parts and Image parts are skipped) are joined with single
  spaces, and if the result is not empty it is spoken. Over the turn the calls to the
  synthesizer are that cancel followed by at most that one utterance, so no two
  utterances overlap.
\<close>

theorem speech_of_a_turn:
  assumes "trim (input st) \<noteq> []" and "\<not> isLoading st" and "chat st"
    and "isTtsSupported e"
  shows "speech (handleSubmit e st) = speech st @ [Cancel] @ utterance e (handleSubmit e st)
         \<and> textToSpeak m = join '' '' (non_blank_texts (parts m))"
proof
  define st1 where "st1 = begin_submit e st"
  define st2 where "st2 = on_reply e (sendMessage e (input st)) st1"
  have h: "handleSubmit e st = st2\<lparr>isLoading := False\<rparr>"
    using assms(1-3) by (simp add: handleSubmit_def Let_def st1_def st2_def)
  have m1: "messages st1 \<noteq> []" "role (last (messages st1)) = User"
    by (simp_all add: st1_def begin_submit_fields user_message_def)
  have s1: "speech st1 = speech st @ [Cancel]"
    using assms(4) by (simp add: st1_def begin_submit_speech)
  have "speech st2 = speech st1 @ utterance e st2"
    unfolding st2_def using m1 by (rule on_reply_speech)
  with s1 h show "speech (handleSubmit e st)
      = speech st @ [Cancel] @ utterance e (handleSubmit e st)"
    by simp
next
  show "textToSpeak m = join '' '' (non_blank_texts (parts m))" by (rule textToSpeak_texts)
qed

lemma turn_run:
  "handleSubmit (prose_env (''Hello```'' @ [newline] @ ''x```'' @ [newline] @ ''```'' @ [newline] @ ''y```''))
     (ready_state\<lparr>input := ''hi'', isTtsEnabled := True\<rparr>)
   = ready_state\<lparr>input := [], isTtsEnabled := True,
       messages := [user_message ''hi'',
                    ai_message [TextPart ''Hello'', CodePart ''x'' ''plaintext'',
                                TextPart [newline], CodePart ''y'' ''plaintext'']],
       speech := [Cancel, Speak ''Hello'']\<rparr>"
  by code_simp

theorem speech_of_a_turn_witness:
  "trim (input (ready_state\<lparr>input := ''hi'', isTtsEnabled := True\<rparr>)) \<noteq> []
   \<and> \<not> isLoading (ready_state\<lparr>input := ''hi'', isTtsEnabled := True\<rparr>)
   \<and> chat (ready_state\<lparr>input := ''hi'', isTtsEnabled := True\<rparr>)
   \<and> isTtsSupported (prose_env ''Hello'')
   \<and> speech (handleSubmit (prose_env ''Hello'')
               (ready_state\<lparr>input := ''hi'', isTtsEnabled := True\<rparr>))
       = speech (ready_state\<lparr>input := ''hi'', isTtsEnabled := True\<rparr>) @ [Cancel]
         @ utterance (prose_env ''Hello'')
             (handleSubmit (prose_env ''Hello'')
                (ready_state\<lparr>input := ''hi'', isTtsEnabled := True\<rparr>))"
proof -
  have a: "trim (input (ready_state\<lparr>input := ''hi'', isTtsEnabled := True\<rparr>)) \<noteq> []"
    by code_simp
  have b: "\<not> isLoading (ready_state\<lparr>input := ''hi'', isTtsEnabled := True\<rparr>)"
    by (simp add: ready_state_def initial_state_def)
  have c: "chat (ready_state\<lparr>input := ''hi'', isTtsEnabled := True\<rparr>)"
    by (simp add: ready_state_def initial_state_def)
  have d: "isTtsSupported (prose_env ''Hello'')" by (simp add: prose_env_def)
  from speech_of_a_turn [OF a b c d]
  have "speech (handleSubmit (prose_env ''Hello'')
               (ready_state\<lparr>input := ''hi'', isTtsEnabled := True\<rparr>))
       = speech (ready_state\<lparr>input := ''hi'', isTtsEnabled := True\<rparr>) @ [Cancel]
         @ utterance (prose_env ''Hello'')
             (handleSubmit (prose_env ''Hello'')
                (ready_state\<lparr>input := ''hi'', isTtsEnabled := True\<rparr>))"
    by (rule conjunct1)
  with a b c d show ?thesis by (intro conjI)
qed

text \<open>
  The claim as it was stated joins the contents of all Text parts. The reply
  \<^verbatim>\<open>Hello```\nx```\n```\ny```\<close> has the Text parts \<open>Hello\<close> and, between the two
  code blocks, a line feed; what is spoken is \<open>Hello\<close>, not \<open>Hello\<close>, a space and the
  line feed.
\<close>

theorem spoken_text_counterexample:
  "speech (handleSubmit (prose_env (''Hello```'' @ [newline] @ ''x```'' @ [newline] @ ''```'' @ [newline] @ ''y```''))
            (ready_state\<lparr>input := ''hi'', isTtsEnabled := True\<rparr>))
     = [Cancel, Speak ''Hello'']
   \<and> join '' ''
        (all_texts (parts (last (messages
           (handleSubmit (prose_env (''Hello```'' @ [newline] @ ''x```'' @ [newline] @ ''```'' @ [newline] @ ''y```''))
              (ready_state\<lparr>input := ''hi'', isTtsEnabled := True\<rparr>))))))
     = ''Hello '' @ [newline]"
  unfolding turn_run by (simp add: user_message_def ai_message_def)

text \<open>
  Claim C5, as amended. Switching speech output on runs the speech effect on the log as it
  is: when the last message of the log is an Assistant Message with a Text part that is
  not blank, that message is spoken at once; no earlier message is spoken, the log is
  unchanged, and an Assistant Message appended after the switch is spoken as usual.
\<close>

theorem toggle_on_speaks_last:
  assumes "isTtsSupported e" and "\<not> isTtsEnabled st"
  shows "isTtsEnabled (handleTtsToggle e st)
         \<and> messages (handleTtsToggle e st) = messages st
         \<and> speech (handleTtsToggle e st)
             = speech st @
               (if messages st \<noteq> [] \<and> role (last (messages st)) = Ai
                   \<and> textToSpeak (last (messages st)) \<noteq> []
                then [Speak (textToSpeak (last (messages st)))] else [])
         \<and> speech (append_message e (ai_message ps) (handleTtsToggle e st))
             = speech (handleTtsToggle e st) @
               (if textToSpeak (ai_message ps) \<noteq> []
                then [Speak (textToSpeak (ai_message ps))] else [])"
proof (intro conjI)
  show on: "isTtsEnabled (handleTtsToggle e st)"
    using assms by (simp add: handleTtsToggle_def)
  show "messages (handleTtsToggle e st) = messages st"
    using assms by (simp add: handleTtsToggle_def)
  show "speech (handleTtsToggle e st)
             = speech st @
               (if messages st \<noteq> [] \<and> role (last (messages st)) = Ai
                   \<and> textToSpeak (last (messages st)) \<noteq> []
                then [Speak (textToSpeak (last (messages st)))] else [])"
    using assms by (simp add: handleTtsToggle_def tts_effect_def Let_def)
  show "speech (append_message e (ai_message ps) (handleTtsToggle e st))
             = speech (handleTtsToggle e st) @
               (if textToSpeak (ai_message ps) \<noteq> []
                then [Speak (textToSpeak (ai_message ps))] else [])"
    using on assms(1) by (simp add: append_message_speech ai_message_def)
qed

lemma quiet_turn_run:
  "handleSubmit (prose_env ''Hello'') (ready_state\<lparr>input := ''hi''\<rparr>)
   = ready_state\<lparr>messages := [user_message ''hi'', ai_message [TextPart ''Hello'']],
       speech := [Cancel]\<rparr>"
  by code_simp

theorem toggle_on_speaks_last_witness:
  "isTtsSupported (prose_env ''Hello'')
   \<and> \<not> isTtsEnabled (handleSubmit (prose_env ''Hello'') (ready_state\<lparr>input := ''hi''\<rparr>))
   \<and> isTtsEnabled
        (handleTtsToggle (prose_env ''Hello'')
           (handleSubmit (prose_env ''Hello'') (ready_state\<lparr>input := ''hi''\<rparr>)))
   \<and> messages
        (handleTtsToggle (prose_env ''Hello'')
           (handleSubmit (prose_env ''Hello'') (ready_state\<lparr>input := ''hi''\<rparr>)))
       = [user_message ''hi'', ai_message [TextPart ''Hello'']]"
proof -
  have a: "isTtsSupported (prose_env ''Hello'')" by (simp add: prose_env_def)
  have b: "\<not> isTtsEnabled (handleSubmit (prose_env ''Hello'') (ready_state\<lparr>input := ''hi''\<rparr>))"
    unfolding quiet_turn_run by (simp add: ready_state_def initial_state_def)
  note t = toggle_on_speaks_last [OF a b]
  have c: "isTtsEnabled
        (handleTtsToggle (prose_env ''Hello'')
           (handleSubmit (prose_env ''Hello'') (ready_state\<lparr>input := ''hi''\<rparr>)))"
    by (rule t [THEN conjunct1])
  have "messages
        (handleTtsToggle (prose_env ''Hello'')
           (handleSubmit (prose_env ''Hello'') (ready_state\<lparr>input := ''hi''\<rparr>)))
       = messages (handleSubmit (prose_env ''Hello'') (ready_state\<lparr>input := ''hi''\<rparr>))"
    by (rule t [THEN conjunct2, THEN conjunct1])
  then have d: "messages
        (handleTtsToggle (prose_env ''Hello'')
           (handleSubmit (prose_env ''Hello'') (ready_state\<lparr>input := ''hi''\<rparr>)))
       = [user_message ''hi'', ai_message [TextPart ''Hello'']]"
    unfolding quiet_turn_run by simp
  from a b c d show ?thesis by (intro conjI)
qed

text \<open>
  The claim as it was stated lets no message of the log be spoken at the switch. After one
  turn with speech output off the log ends with the Assistant Message \<open>Hello\<close>, which was
  not spoken; switching speech output on speaks it.
\<close>

theorem toggle_on_counterexample:
  "speech (handleSubmit (prose_env ''Hello'') (ready_state\<lparr>input := ''hi''\<rparr>)) = [Cancel]
   \<and> speech
        (handleTtsToggle (prose_env ''Hello'')
           (handleSubmit (prose_env ''Hello'') (ready_state\<lparr>input := ''hi''\<rparr>)))
       = [Cancel, Speak ''Hello'']"
  unfolding quiet_turn_run by code_simp

section \<open>Properties of handleRunCode\<close>

text \<open>On every path the binding of \<^verbatim>\<open>console.log\<close> is the one from before the run, and
  the output holds the lines logged before the end of the run.\<close>

lemma handleRunCode_restores:
  "console_log (fst (handleRunCode b st)) = console_log st
   \<and> take (length (calls b)) (output_lines (fst (handleRunCode b st))) = map log_line (calls b)"
  by (simp add: handleRunCode_def try_block_def catch_block_def Let_def
      split: completion.splits sum.splits thrown.splits option.splits prod.splits)

text \<open>A thrown Error object is caught and its message becomes the error shown.\<close>

lemma handleRunCode_catches_Error:
  "completion b = Raises (Thrown (Some m)) \<Longrightarrow>
     handleRunCode b st
       = (st\<lparr>output_lines := map log_line (calls b), error_state := Shown m\<rparr>, None)"
  by (simp add: handleRunCode_def try_block_def catch_block_def Let_def)

text \<open>
  Claim C7. The runner is to catch every runtime failure of the code and report it as the
  error instead of letting it propagate to the caller, to keep the lines logged before
  the failure, and to restore \<^verbatim>\<open>console.log\<close> on every path. The restoring and the
  keeping of the lines hold on every path, and a thrown Error object is caught and
  reported (the two lemmas above). The handler as written does not catch every failure:
  for the code \<^verbatim>\<open>console.log(1); throw null\<close> the \<^verbatim>\<open>catch\<close> block reads
  \<^verbatim>\<open>e.message\<close> of \<^verbatim>\<open>null\<close>, the TypeError of that read propagates to the caller
  and no error is reported. For \<^verbatim>\<open>throw "boom"\<close> nothing propagates, and the error
  state becomes \<^verbatim>\<open>undefined\<close>, which is not shown either.
\<close>

theorem handleRunCode_throw_null:
  "handleRunCode \<lparr>calls = [[OtherArg (Some ''1'')]], completion = Raises Nullish\<rparr>
     \<lparr>output_lines = [], error_state = Null, console_log = OriginalLog\<rparr>
     = (\<lparr>output_lines = [''1''], error_state = Null, console_log = OriginalLog\<rparr>, Some TypeError)
   \<and> handleRunCode \<lparr>calls = [], completion = Raises (Thrown None)\<rparr>
     \<lparr>output_lines = [], error_state = Null, console_log = OriginalLog\<rparr>
     = (\<lparr>output_lines = [], error_state = Undefined_slot, console_log = OriginalLog\<rparr>, None)"
  by (simp add: handleRunCode_def try_block_def catch_block_def log_line_def)

section \<open>Runs of the application\<close>

lemma spaced_Cancel: "spaced b (cs @ [Cancel]) = spaced b cs"
  by (induction b cs rule: spaced.induct) simp_all

lemma silent_Cancel: "silent b (cs @ [Cancel])"
  by (induction b cs rule: silent.induct) simp_all

lemma spaced_Speak: "spaced b (cs @ [Speak t]) = (spaced b cs \<and> silent b cs)"
  by (induction b cs rule: spaced.induct) auto

lemma spaced_Cancel_Speak: "spaced b (cs @ Cancel # us) = (spaced b cs \<and> spaced False us)"
  by (induction b cs rule: spaced.induct) auto

lemma utterance_spaced: "spaced False (utterance e st)"
  by (simp add: utterance_def)

lemma handleSubmit_isTtsEnabled: "isTtsEnabled (handleSubmit e st) = isTtsEnabled st"
  by (auto simp: handleSubmit_def Let_def on_reply_def handleImageGeneration_def
      begin_submit_def split: sum.splits option.splits)

lemma handleSubmit_speech:
  assumes "trim (input st) \<noteq> []" and "\<not> isLoading st" and "chat st"
  shows "speech (handleSubmit e st)
           = speech st @ (if isTtsSupported e then [Cancel] @ utterance e (handleSubmit e st)
                          else [])"
proof -
  define st1 where "st1 = begin_submit e st"
  define st2 where "st2 = on_reply e (sendMessage e (input st)) st1"
  have h: "handleSubmit e st = st2\<lparr>isLoading := False\<rparr>"
    using assms by (simp add: handleSubmit_def Let_def st1_def st2_def)
  have m1: "messages st1 \<noteq> []" "role (last (messages st1)) = User"
    by (simp_all add: st1_def begin_submit_fields user_message_def)
  have s1: "speech st1 = speech st @ (if isTtsSupported e then [Cancel] else [])"
    by (simp add: st1_def begin_submit_def Let_def append_message_speech user_message_def)
  have s2: "speech st2 = speech st1 @ utterance e st2"
    unfolding st2_def using m1 by (rule on_reply_speech)
  have "utterance e st2 = []" if "\<not> isTtsSupported e"
    using that by (simp add: utterance_def)
  with s1 s2 h show ?thesis by simp
qed

lemma speech_ok_handleSubmit: "speech_ok st \<Longrightarrow> speech_ok (handleSubmit e st)"
proof (cases "trim (input st) \<noteq> [] \<and> \<not> isLoading st \<and> chat st")
  case False
  assume "speech_ok st"
  moreover from False have "handleSubmit e st = st" by (auto simp: handleSubmit_def)
  ultimately show ?thesis by simp
next
  case True
  assume ok: "speech_ok st"
  from True have sp: "speech (handleSubmit e st)
           = speech st @ (if isTtsSupported e then [Cancel] @ utterance e (handleSubmit e st)
                          else [])"
    by (simp add: handleSubmit_speech)
  show ?thesis
  proof (cases "isTtsSupported e")
    case False
    with sp ok show ?thesis by (simp add: speech_ok_def handleSubmit_isTtsEnabled)
  next
    case sup: True
    with sp have sp': "speech (handleSubmit e st)
        = speech st @ Cancel # utterance e (handleSubmit e st)" by simp
    from ok have "spaced False (speech (handleSubmit e st))"
      unfolding sp' by (simp add: spaced_Cancel_Speak utterance_spaced speech_ok_def)
    moreover have "isTtsEnabled (handleSubmit e st) \<or> silent False (speech (handleSubmit e st))"
    proof (cases "isTtsEnabled st")
      case True
      then show ?thesis by (simp add: handleSubmit_isTtsEnabled)
    next
      case False
      then have "utterance e (handleSubmit e st) = []"
        by (simp add: utterance_def handleSubmit_isTtsEnabled)
      with sp' have "speech (handleSubmit e st) = speech st @ [Cancel]" by simp
      then show ?thesis by (simp add: silent_Cancel)
    qed
    ultimately show ?thesis by (simp add: speech_ok_def)
  qed
qed

lemma speech_ok_handleTtsToggle: "speech_ok st \<Longrightarrow> speech_ok (handleTtsToggle e st)"
  by (auto simp: speech_ok_def handleTtsToggle_def tts_effect_def Let_def
      spaced_Cancel silent_Cancel spaced_Speak)

lemma speech_ok_handleListen: "speech_ok st \<Longrightarrow> speech_ok (handleListen e st)"
  by (auto simp: speech_ok_def handleListen_def Let_def spaced_Cancel silent_Cancel)

lemma speech_ok_step: "speech_ok st \<Longrightarrow> speech_ok (step ev st)"
proof -
  assume ok: "speech_ok st"
  obtain e x where ev: "ev = (e, x)" by (cases ev) auto
  show ?thesis
  proof (cases x)
    case Submit
    with ev ok show ?thesis by (simp add: speech_ok_handleSubmit)
  next
    case Toggle_tts
    with ev ok show ?thesis by (simp add: speech_ok_handleTtsToggle)
  next
    case Listen
    with ev ok show ?thesis by (simp add: speech_ok_handleListen)
  next
    case (Set_input s)
    with ev ok show ?thesis by (simp add: speech_ok_def)
  next
    case Recognition_end
    with ev ok show ?thesis by (simp add: speech_ok_def)
  qed
qed

lemma speech_ok_initializeChat: "speech_ok (initializeChat e k c initial_state)"
  by (simp add: speech_ok_def initializeChat_def set_messages_def tts_effect_def
      initial_state_def split: creation.splits)

text \<open>
  In every run from the mounted component, whatever the events and their environments,
  no utterance begins while another may be in progress.
\<close>

lemma utterances_never_overlap:
  "spaced False (speech (run evs (initializeChat e k c initial_state)))"
proof -
  have "speech_ok st \<Longrightarrow> speech_ok (run evs st)" for st
    by (induction evs arbitrary: st) (simp_all add: speech_ok_step)
  from this [OF speech_ok_initializeChat] show ?thesis by (simp add: speech_ok_def)
qed

text \<open>
  In every run from the mounted component each message of the conversation log with an
  Image part has that part and no other.
\<close>

lemma log_image_exclusive:
  "list_all image_exclusive (messages (run evs (initializeChat e k c initial_state)))"
proof -
  have st: "list_all image_exclusive (messages (step ev st))"
    if "list_all image_exclusive (messages st)" for ev st
  proof -
    obtain e x where ev: "ev = (e, x)" by (cases ev) auto
    show ?thesis
    proof (cases x)
      case Submit
      from handleSubmit_appends [of e st] obtain new where
        "messages (handleSubmit e st) = messages st @ new" "list_all image_exclusive new"
        by blast
      with that ev Submit show ?thesis by simp
    next
      case Toggle_tts
      with that ev show ?thesis by (simp add: handleTtsToggle_def Let_def)
    next
      case Listen
      with that ev show ?thesis by (simp add: handleListen_def Let_def)
    next
      case (Set_input s)
      with that ev show ?thesis by simp
    next
      case Recognition_end
      with that ev show ?thesis by simp
    qed
  qed
  have "list_all image_exclusive (messages st) \<Longrightarrow>
          list_all image_exclusive (messages (run evs st))" for st
    by (induction evs arbitrary: st) (simp_all add: st)
  moreover have "list_all image_exclusive (messages (initializeChat e k c initial_state))"
    by (simp add: initializeChat_def set_messages_def initial_state_def ai_message_def
        image_exclusive_text split: creation.splits)
  ultimately show ?thesis by blast
qed

subsection \<open>Runs with requests pending\<close>

lemma handleImageGeneration_async:
  "ai st \<Longrightarrow> handleImageGeneration e p st = image_arrives e p (generateImages e p) st"
  by (simp add: handleImageGeneration_def image_arrives_def split: sum.splits option.splits)

text \<open>The handler run to its end is the steps taken one after the other, with the
  outcomes the environment gives.\<close>

lemma handleSubmit_async:
  assumes "trim (input st) \<noteq> []" and "\<not> isLoading st" and "chat st"
  shows "(let c1 = async_step e Submit_form (st, No_request);
              c2 = async_step e (Reply (sendMessage e (input st))) c1
          in case snd c2 of
               Image_pending image_prompt \<Rightarrow>
                 async_step e (Image (generateImages e image_prompt)) c2
             | _ \<Rightarrow> c2)
         = (handleSubmit e st, No_request)"
proof -
  define st1 where "st1 = begin_submit e st"
  have c1: "async_step e Submit_form (st, No_request) = (st1, Reply_pending)"
    using assms by (simp add: st1_def)
  have ai1: "ai st1 = ai st" by (simp add: st1_def begin_submit_fields)
  have h: "handleSubmit e st = (on_reply e (sendMessage e (input st)) st1)\<lparr>isLoading := False\<rparr>"
    using assms by (simp add: handleSubmit_def Let_def st1_def)
  show ?thesis
  proof (cases "sendMessage e (input st)")
    case (Inl error)
    with assms show ?thesis by (simp add: h st1_def on_reply_def Let_def)
  next
    case (Inr response_text)
    define responseText where
      "responseText = trim (case response_text of None \<Rightarrow> [] | Some t \<Rightarrow> t)"
    show ?thesis
    proof (cases "image_directive (JSON_parse e responseText)")
      case None
      with Inr assms show ?thesis
        by (simp add: h st1_def on_reply_def Let_def responseText_def)
    next
      case (Some image_prompt)
      show ?thesis
      proof (cases "ai st1")
        case False
        with Inr Some assms show ?thesis
          by (simp add: h st1_def on_reply_def Let_def responseText_def
              handleImageGeneration_def)
      next
        case True
        with Inr Some assms show ?thesis
          by (simp add: h st1_def on_reply_def Let_def responseText_def
              handleImageGeneration_async)
      qed
    qed
  qed
qed

lemma silent_spaced_Speak: "spaced b cs \<Longrightarrow> silent b cs \<Longrightarrow> spaced b (cs @ [Speak t])"
  by (simp add: spaced_Speak)

lemma image_exclusive_ai_text: "image_exclusive (ai_message [TextPart c])"
  by (simp add: ai_message_def image_exclusive_text)

lemma image_arrives_message:
  "\<exists>m. image_arrives e p outcome st = append_message e m st \<and> role m = Ai
       \<and> image_exclusive m"
  by (cases outcome)
     (auto simp: image_arrives_def image_failed_def ai_message_def image_exclusive_text
        image_exclusive_image split: option.splits)

text \<open>An Assistant Message appended while a request is pending, which ends the turn.\<close>

lemma async_ok_turn_end:
  assumes "async_ok e (st, p)" and "p \<noteq> No_request" and "role m = Ai"
    and "image_exclusive m"
  shows "async_ok e ((append_message e m st)\<lparr>isLoading := False\<rparr>, No_request)"
proof -
  from assms(1,2) have sil: "silent False (speech st)" and ok: "speech_ok st"
    and sup: "isTtsSupported e \<or> speech st = []"
    and log: "list_all image_exclusive (messages st)"
    by (auto simp: async_ok_def)
  from ok have sp: "spaced False (speech st)" by (simp add: speech_ok_def)
  have "speech_ok ((append_message e m st)\<lparr>isLoading := False\<rparr>)"
    using sp sil by (simp add: speech_ok_def append_message_speech spaced_Speak)
  moreover have "isTtsSupported e \<or> speech ((append_message e m st)\<lparr>isLoading := False\<rparr>) = []"
    using sup by (auto simp: append_message_speech)
  moreover have "list_all image_exclusive (messages ((append_message e m st)\<lparr>isLoading := False\<rparr>))"
    using log assms(4) by simp
  ultimately show ?thesis by (simp add: async_ok_def)
qed

lemma async_ok_Submit: "async_ok e c \<Longrightarrow> async_ok e (async_step e Submit_form c)"
proof -
  assume a: "async_ok e c"
  obtain st p where c: "c = (st, p)" by (cases c) auto
  show ?thesis
  proof (cases "trim (input st) = [] \<or> isLoading st \<or> \<not> chat st")
    case True
    with a c show ?thesis by auto
  next
    case False
    with a c have p: "p = No_request" by (auto simp: async_ok_def)
    from a c have ok: "speech_ok st" and sup: "isTtsSupported e \<or> speech st = []"
      and log: "list_all image_exclusive (messages st)"
      by (auto simp: async_ok_def)
    have sp: "speech (begin_submit e st) = speech st @ (if isTtsSupported e then [Cancel] else [])"
      by (simp add: begin_submit_def Let_def append_message_speech user_message_def)
    have sil: "silent False (speech (begin_submit e st))"
      using sup by (auto simp: sp silent_Cancel)
    have "speech_ok (begin_submit e st)"
      using ok sil by (auto simp: speech_ok_def sp spaced_Cancel)
    moreover have "isLoading (begin_submit e st)" by (simp add: begin_submit_def Let_def)
    moreover have "messages (begin_submit e st) \<noteq> []"
      "role (last (messages (begin_submit e st))) = User"
      by (simp_all add: begin_submit_fields user_message_def)
    moreover have "isTtsSupported e \<or> speech (begin_submit e st) = []"
      using sup by (auto simp: sp)
    moreover have "list_all image_exclusive (messages (begin_submit e st))"
      using log by (simp add: begin_submit_fields user_message_def image_exclusive_text)
    ultimately show ?thesis using False c sil by (simp add: async_ok_def)
  qed
qed

lemma async_ok_Reply: "async_ok e c \<Longrightarrow> async_ok e (async_step e (Reply outcome) c)"
proof -
  assume a: "async_ok e c"
  obtain st p where c: "c = (st, p)" by (cases c) auto
  show ?thesis
  proof (cases "p = Reply_pending")
    case False
    with a c show ?thesis by (cases p) auto
  next
    case True
    then have pn: "p \<noteq> No_request" by simp
    show ?thesis
    proof (cases outcome)
      case (Inl error)
      have "async_ok e ((append_message e (submit_failed e error) st)\<lparr>isLoading := False\<rparr>,
              No_request)"
        using a [unfolded c] pn
        by (rule async_ok_turn_end) (simp_all add: submit_failed_def image_exclusive_ai_text, simp add: ai_message_def)
      with True Inl c show ?thesis by simp
    next
      case (Inr response_text)
      define responseText where
        "responseText = trim (case response_text of None \<Rightarrow> [] | Some t \<Rightarrow> t)"
      show ?thesis
      proof (cases "image_directive (JSON_parse e responseText)")
        case None
        have "async_ok e ((append_message e (ai_message (parseResponse responseText)) st)
                \<lparr>isLoading := False\<rparr>, No_request)"
          using a [unfolded c] pn
          by (rule async_ok_turn_end) (simp_all add: ai_message_def image_exclusive_parsed)
        with True Inr None c show ?thesis by (simp add: responseText_def Let_def)
      next
        case (Some image_prompt)
        show ?thesis
        proof (cases "ai st")
          case True
          with \<open>p = Reply_pending\<close> Inr Some c a show ?thesis
            by (simp add: responseText_def Let_def async_ok_def)
        next
          case False
          from a c \<open>p = Reply_pending\<close> have "async_ok e (st\<lparr>isLoading := False\<rparr>, No_request)"
            by (simp add: async_ok_def speech_ok_def)
          with False \<open>p = Reply_pending\<close> Inr Some c show ?thesis
            by (simp add: responseText_def Let_def)
        qed
      qed
    qed
  qed
qed

lemma async_ok_Image: "async_ok e c \<Longrightarrow> async_ok e (async_step e (Image outcome) c)"
proof -
  assume a: "async_ok e c"
  obtain st p where c: "c = (st, p)" by (cases c) auto
  show ?thesis
  proof (cases p)
    case No_request
    with a c show ?thesis by simp
  next
    case Reply_pending
    with a c show ?thesis by simp
  next
    case (Image_pending image_prompt)
    then have pn: "p \<noteq> No_request" by simp
    from image_arrives_message [of e image_prompt outcome st] obtain m where
      m: "image_arrives e image_prompt outcome st = append_message e m st" "role m = Ai"
      "image_exclusive m" by blast
    from a [unfolded c] pn m(2,3)
    have "async_ok e ((append_message e m st)\<lparr>isLoading := False\<rparr>, No_request)"
      by (rule async_ok_turn_end)
    with Image_pending c m(1) show ?thesis by simp
  qed
qed

lemma async_ok_Press_tts: "async_ok e c \<Longrightarrow> async_ok e (async_step e Press_tts c)"
proof -
  assume a: "async_ok e c"
  obtain st p where c: "c = (st, p)" by (cases c) auto
  from a c have "speech_ok (handleTtsToggle e st)"
    by (simp add: async_ok_def speech_ok_handleTtsToggle)
  with a c show ?thesis
    by (auto simp: async_ok_def handleTtsToggle_def tts_effect_def Let_def silent_Cancel)
qed

lemma async_ok_Press_mic: "async_ok e c \<Longrightarrow> async_ok e (async_step e Press_mic c)"
proof -
  assume a: "async_ok e c"
  obtain st p where c: "c = (st, p)" by (cases c) auto
  from a c have "speech_ok (handleListen e st)"
    by (simp add: async_ok_def speech_ok_handleListen)
  with a c show ?thesis
    by (auto simp: async_ok_def handleListen_def Let_def silent_Cancel)
qed

lemma async_ok_step: "async_ok e c \<Longrightarrow> async_ok e (async_step e ev c)"
proof (cases ev)
  case Submit_form
  then show "async_ok e c \<Longrightarrow> ?thesis" by (simp add: async_ok_Submit)
next
  case (Reply outcome)
  then show "async_ok e c \<Longrightarrow> ?thesis" by (simp add: async_ok_Reply)
next
  case (Image outcome)
  then show "async_ok e c \<Longrightarrow> ?thesis" by (simp add: async_ok_Image)
next
  case Press_tts
  then show "async_ok e c \<Longrightarrow> ?thesis" by (simp add: async_ok_Press_tts)
next
  case Press_mic
  then show "async_ok e c \<Longrightarrow> ?thesis" by (simp add: async_ok_Press_mic)
next
  case (Typed s)
  then show "async_ok e c \<Longrightarrow> ?thesis"
    by (cases c) (simp add: async_ok_def speech_ok_def)
next
  case Recognizer_ended
  then show "async_ok e c \<Longrightarrow> ?thesis"
    by (cases c) (simp add: async_ok_def speech_ok_def)
qed

lemma async_ok_initializeChat:
  "async_ok e (initializeChat e k c initial_state, No_request)"
  by (simp add: async_ok_def speech_ok_def initializeChat_def set_messages_def tts_effect_def
      initial_state_def ai_message_def image_exclusive_text split: creation.splits)

lemma async_ok_run:
  "async_ok e (async_run e evs (initializeChat e k c initial_state, No_request))"
proof -
  have "async_ok e c \<Longrightarrow> async_ok e (async_run e evs c)" for c
    by (induction evs arbitrary: c) (simp_all add: async_ok_step)
  from this [OF async_ok_initializeChat] show ?thesis .
qed

text \<open>
  In every run, with other handlers running while requests are pending: a submit made
  while a request is pending changes nothing; no utterance begins while another may be in
  progress; and each message of the log with an Image part has that part and no other.
\<close>

lemma pending_runs:
  assumes "async_run e evs (initializeChat e k c initial_state, No_request) = (st, p)"
  shows "(p \<noteq> No_request \<longrightarrow> async_step e Submit_form (st, p) = (st, p))
         \<and> spaced False (speech st)
         \<and> list_all image_exclusive (messages st)"
proof -
  from async_ok_run [of e evs k c] assms have "async_ok e (st, p)" by simp
  then show ?thesis by (auto simp: async_ok_def speech_ok_def)
qed

end
